theory Spec2Isabelle
  imports Main "HOL-Library.Word" "HOL-Library.Monad_Syntax" "HOL-Library.Finite_Map"
begin

unbundle bit_operations_syntax

section \<open>Blocks and big numbers\<close>

text \<open>
  \<^verbatim>\<open>big_numbers.h\<close> stores a big number as a doubly linked chain of \<open>Block\<close>s,
  each holding one \<open>uint32_t\<close>, together with a cached \<open>int num_blocks\<close>.
  The library is modelled twice. In the first model a big number is the list of its
  blocks and its cached count: the chain read from \<open>least_significant\<close> along \<open>next\<close>
  is the list \<open>blocks\<close>; read from \<open>most_significant\<close> along \<open>prev\<close> it is
  \<open>rev blocks\<close>. The second model keeps the structs, the pointers, \<open>malloc\<close> and
  \<open>free\<close> in a store; the lemmas named \<open>c_\<dots>_spec\<close> show that each function on
  the store returns, for well-formed operands, what the function on lists computes.
  \<open>num_blocks\<close> is kept as the separate field the code maintains; it is an
  unbounded \<open>int\<close> here (a chain of \<open>2^31\<close> blocks would overflow the C \<open>int\<close>,
  which is undefined behaviour and has no value to model).
\<close>

type_synonym uint32 = "32 word"
type_synonym uint64 = "64 word"

definition BLOCK_SIZE :: nat where
  "BLOCK_SIZE = 32"

definition BLOCK_MASK :: uint64 where
  "BLOCK_MASK = 4294967295"

record Bnum =
  num_blocks :: int
  blocks :: "uint32 list"

text \<open>
  The expression \<^verbatim>\<open>(uint32_t) x & BLOCK_MASK\<close> passed to \<open>add_block\<close>: the cast binds
  tighter than \<open>&\<close>, the 32-bit value is widened again for the mask and converted back
  to \<open>uint32_t\<close> at the call.
\<close>

definition low_block :: "uint64 \<Rightarrow> uint32" where
  "low_block x = ucast ((ucast (ucast x :: uint32) :: uint64) AND BLOCK_MASK)"

text \<open>\<open>add_block\<close>: the new block becomes the most significant one; the count goes up.\<close>

definition add_block :: "Bnum \<Rightarrow> uint32 \<Rightarrow> Bnum" where
  "add_block big_num v =
     big_num\<lparr>blocks := blocks big_num @ [v], num_blocks := num_blocks big_num + 1\<rparr>"

section \<open>Construction\<close>

definition empty_Bnum :: Bnum where
  "empty_Bnum = \<lparr>num_blocks = 0, blocks = []\<rparr>"

function create_loop :: "uint64 \<Rightarrow> Bnum \<Rightarrow> Bnum" where
  "create_loop num big_num =
     (if num > 0
      then create_loop (drop_bit BLOCK_SIZE num) (add_block big_num (low_block num))
      else big_num)"
  by pat_completeness auto
termination
proof (relation "measure (\<lambda>(num, big_num). unat num)")
  show "wf (measure (\<lambda>(num, big_num). unat num))"
    by simp
next
  fix num :: uint64 and big_num :: Bnum
  assume "0 < num"
  then have "0 < unat num"
    by (simp add: word_greater_zero_iff unat_gt_0)
  moreover have "unat (drop_bit BLOCK_SIZE num) = unat num div 2 ^ BLOCK_SIZE"
    by (simp add: BLOCK_SIZE_def drop_bit_eq_div unat_div)
  ultimately have "unat (drop_bit BLOCK_SIZE num) < unat num"
    by (simp add: BLOCK_SIZE_def)
  then show "((drop_bit BLOCK_SIZE num, add_block big_num (low_block num)), (num, big_num))
               \<in> measure (\<lambda>(num, big_num). unat num)"
    by simp
qed

declare create_loop.simps [simp del]

definition Bnum_create :: "uint64 \<Rightarrow> Bnum" where
  "Bnum_create num = (if num = 0 then empty_Bnum else create_loop num empty_Bnum)"

section \<open>Comparisons\<close>

text \<open>The C functions return \<open>int\<close> 1 or 0; they are \<open>True\<close> and \<open>False\<close> here.\<close>

fun eq_loop :: "uint32 list \<Rightarrow> uint32 list \<Rightarrow> bool" where
  "eq_loop (x # xs) (y # ys) = (if x \<noteq> y then False else eq_loop xs ys)"
| "eq_loop xs ys = (if xs \<noteq> [] \<or> ys \<noteq> [] then False else True)"

definition Bnum_eq :: "Bnum \<Rightarrow> Bnum \<Rightarrow> bool" where
  "Bnum_eq a b = eq_loop (blocks a) (blocks b)"

definition Bnum_ne :: "Bnum \<Rightarrow> Bnum \<Rightarrow> bool" where
  "Bnum_ne a b = (\<not> Bnum_eq a b)"

text \<open>The loops of \<open>Bnum_le\<close> and \<open>Bnum_ge\<close> walk from \<open>most_significant\<close> along \<open>prev\<close>.\<close>

fun le_loop :: "uint32 list \<Rightarrow> uint32 list \<Rightarrow> bool" where
  "le_loop (x # xs) (y # ys) = (if x \<noteq> y then x < y else le_loop xs ys)"
| "le_loop xs ys = True"

fun ge_loop :: "uint32 list \<Rightarrow> uint32 list \<Rightarrow> bool" where
  "ge_loop (x # xs) (y # ys) = (if x \<noteq> y then x > y else ge_loop xs ys)"
| "ge_loop xs ys = True"

definition Bnum_le :: "Bnum \<Rightarrow> Bnum \<Rightarrow> bool" where
  "Bnum_le a b =
     (if num_blocks a \<noteq> num_blocks b then num_blocks a < num_blocks b
      else le_loop (rev (blocks a)) (rev (blocks b)))"

definition Bnum_ge :: "Bnum \<Rightarrow> Bnum \<Rightarrow> bool" where
  "Bnum_ge a b =
     (if num_blocks a \<noteq> num_blocks b then num_blocks a > num_blocks b
      else ge_loop (rev (blocks a)) (rev (blocks b)))"

definition Bnum_lt :: "Bnum \<Rightarrow> Bnum \<Rightarrow> bool" where
  "Bnum_lt a b = (\<not> Bnum_ge a b)"

definition Bnum_gt :: "Bnum \<Rightarrow> Bnum \<Rightarrow> bool" where
  "Bnum_gt a b = (\<not> Bnum_le a b)"

section \<open>Addition\<close>

text \<open>
  The first loop of \<open>Bnum_sum\<close> runs while both chains have a block; it leaves the two
  cursors, the carry and the sum built so far. The second loop runs over the rest of
  whichever chain is not exhausted. Nothing follows the second loop.
\<close>

fun sum_both :: "uint32 list \<Rightarrow> uint32 list \<Rightarrow> uint64 \<Rightarrow> Bnum
                   \<Rightarrow> uint32 list \<times> uint32 list \<times> uint64 \<times> Bnum" where
  "sum_both (x # xs) (y # ys) carry sum_bn =
     (let block_sum = (ucast x :: uint64) + (ucast y :: uint64) + carry
      in sum_both xs ys (drop_bit BLOCK_SIZE block_sum) (add_block sum_bn (low_block block_sum)))"
| "sum_both xs ys carry sum_bn = (xs, ys, carry, sum_bn)"

fun sum_rest :: "uint32 list \<Rightarrow> uint64 \<Rightarrow> Bnum \<Rightarrow> Bnum" where
  "sum_rest (x # xs) carry sum_bn =
     (let block_sum = (ucast x :: uint64) + carry
      in sum_rest xs (drop_bit BLOCK_SIZE block_sum) (add_block sum_bn (low_block block_sum)))"
| "sum_rest [] carry sum_bn = sum_bn"

definition Bnum_sum :: "Bnum \<Rightarrow> Bnum \<Rightarrow> Bnum" where
  "Bnum_sum a b =
     (case sum_both (blocks a) (blocks b) 0 (Bnum_create 0) of
        (cur_block_a, cur_block_b, carry, sum_bn) \<Rightarrow>
          sum_rest (if cur_block_a \<noteq> [] then cur_block_a else cur_block_b) carry sum_bn)"

section \<open>Multiplication\<close>

function zero_loop :: "int \<Rightarrow> int \<Rightarrow> Bnum \<Rightarrow> Bnum" where
  "zero_loop i shift cur_product =
     (if i < shift then zero_loop (i + 1) shift (add_block cur_product 0) else cur_product)"
  by pat_completeness auto
termination
  by (relation "measure (\<lambda>(i, shift, cur_product). nat (shift - i))") auto

declare zero_loop.simps [simp del]

fun mult_block :: "uint32 \<Rightarrow> uint32 list \<Rightarrow> uint64 \<Rightarrow> Bnum \<Rightarrow> uint64 \<times> Bnum" where
  "mult_block x (y # ys) carry cur_product =
     (let block_product = (ucast x :: uint64) * (ucast y :: uint64) + carry
      in mult_block x ys (drop_bit BLOCK_SIZE block_product)
           (add_block cur_product (low_block block_product)))"
| "mult_block x [] carry cur_product = (carry, cur_product)"

fun mult_loop :: "uint32 list \<Rightarrow> Bnum \<Rightarrow> int \<Rightarrow> Bnum \<Rightarrow> Bnum" where
  "mult_loop (x # xs) b shift product_bn =
     (case mult_block x (blocks b) 0 (zero_loop 0 shift (Bnum_create 0)) of
        (carry, cur_product) \<Rightarrow>
          (let cur_product' = (if carry \<noteq> 0 then add_block cur_product (ucast carry)
                               else cur_product)
           in mult_loop xs b (shift + 1) (Bnum_sum product_bn cur_product')))"
| "mult_loop [] b shift product_bn = product_bn"

definition Bnum_mult :: "Bnum \<Rightarrow> Bnum \<Rightarrow> Bnum" where
  "Bnum_mult a b = mult_loop (blocks a) b 0 (Bnum_create 0)"

section \<open>Exponentiation\<close>

function pow_loop :: "int \<Rightarrow> int \<Rightarrow> Bnum \<Rightarrow> Bnum \<Rightarrow> Bnum" where
  "pow_loop i n a result =
     (if i < n then pow_loop (i + 1) n a (Bnum_mult result a) else result)"
  by pat_completeness auto
termination
  by (relation "measure (\<lambda>(i, n, a, result). nat (n - i))") auto

declare pow_loop.simps [simp del]

definition Bnum_pow :: "Bnum \<Rightarrow> int \<Rightarrow> Bnum" where
  "Bnum_pow a n = pow_loop 0 n a (Bnum_create 1)"

section \<open>The value of a big number\<close>

fun value_of :: "uint32 list \<Rightarrow> nat" where
  "value_of [] = 0"
| "value_of (x # xs) = unat x + 2 ^ 32 * value_of xs"

definition Bnum_value :: "Bnum \<Rightarrow> nat" where
  "Bnum_value a = value_of (blocks a)"

text \<open>A well-formed big number caches the length of its chain.\<close>

definition count_ok :: "Bnum \<Rightarrow> bool" where
  "count_ok a = (num_blocks a = int (length (blocks a)))"

text \<open>Canonical form: no most-significant zero block; zero is the empty chain.\<close>

definition canonical :: "Bnum \<Rightarrow> bool" where
  "canonical a = (count_ok a \<and> (blocks a = [] \<or> last (blocks a) \<noteq> 0))"

section \<open>The store\<close>

text \<open>
  The second model. A store holds the \<open>Block\<close> structs and the
  \<open>Bnum\<close> structs that are allocated, each under its address; address 0 is \<open>NULL\<close>.
  \<open>malloc\<close> hands out the address after the highest one given out so far (\<open>brk\<close>) and
  never an address in use; the struct it returns is zeroed here, and the code assigns
  every field before reading it. Reading or writing through \<open>NULL\<close> or through an
  address that is not allocated is undefined behaviour: the function has no result
  (\<open>None\<close>). Every function takes the store and returns the store it leaves, also
  the comparisons, which only read.
\<close>

type_synonym addr = nat

abbreviation NULL :: addr where
  "NULL \<equiv> 0"

record Block =
  val :: uint32
  next_block :: addr
  prev_block :: addr

record Bnum_struct =
  struct_num_blocks :: int
  least_significant :: addr
  most_significant :: addr

record store =
  Blocks :: "(addr, Block) fmap"
  Bnums :: "(addr, Bnum_struct) fmap"
  brk :: addr

definition malloc_Block :: "store \<Rightarrow> addr \<times> store" where
  "malloc_Block s =
     (Suc (brk s),
      s\<lparr>Blocks := fmupd (Suc (brk s)) \<lparr>val = 0, next_block = NULL, prev_block = NULL\<rparr>
                    (Blocks s),
        brk := Suc (brk s)\<rparr>)"

definition malloc_Bnum :: "store \<Rightarrow> addr \<times> store" where
  "malloc_Bnum s =
     (Suc (brk s),
      s\<lparr>Bnums := fmupd (Suc (brk s))
                   \<lparr>struct_num_blocks = 0, least_significant = NULL, most_significant = NULL\<rparr>
                   (Bnums s),
        brk := Suc (brk s)\<rparr>)"

definition load_Block :: "addr \<Rightarrow> store \<Rightarrow> Block option" where
  "load_Block p s = (if p = NULL then None else fmlookup (Blocks s) p)"

definition load_Bnum :: "addr \<Rightarrow> store \<Rightarrow> Bnum_struct option" where
  "load_Bnum p s = (if p = NULL then None else fmlookup (Bnums s) p)"

definition store_Block :: "addr \<Rightarrow> Block \<Rightarrow> store \<Rightarrow> store option" where
  "store_Block p c s =
     (if p = NULL \<or> fmlookup (Blocks s) p = None then None
      else Some (s\<lparr>Blocks := fmupd p c (Blocks s)\<rparr>))"

definition store_Bnum :: "addr \<Rightarrow> Bnum_struct \<Rightarrow> store \<Rightarrow> store option" where
  "store_Bnum p c s =
     (if p = NULL \<or> fmlookup (Bnums s) p = None then None
      else Some (s\<lparr>Bnums := fmupd p c (Bnums s)\<rparr>))"

definition free_Block :: "addr \<Rightarrow> store \<Rightarrow> store option" where
  "free_Block p s =
     (if p = NULL \<or> fmlookup (Blocks s) p = None then None
      else Some (s\<lparr>Blocks := fmdrop p (Blocks s)\<rparr>))"

definition free_Bnum :: "addr \<Rightarrow> store \<Rightarrow> store option" where
  "free_Bnum p s =
     (if p = NULL \<or> fmlookup (Bnums s) p = None then None
      else Some (s\<lparr>Bnums := fmdrop p (Bnums s)\<rparr>))"

section \<open>The functions of \<^verbatim>\<open>big_numbers.c\<close> on the store\<close>

definition c_add_block :: "addr \<Rightarrow> uint32 \<Rightarrow> store \<Rightarrow> store option" where
  "c_add_block big_num v s =
     (case malloc_Block s of (cur_block, s) \<Rightarrow> do {
        s \<leftarrow> store_Block cur_block \<lparr>val = v, next_block = NULL, prev_block = NULL\<rparr> s;
        bn \<leftarrow> load_Bnum big_num s;
        s \<leftarrow> (if least_significant bn = NULL then
                store_Bnum big_num
                  (bn\<lparr>least_significant := cur_block, most_significant := cur_block\<rparr>) s
              else do {
                m \<leftarrow> load_Block (most_significant bn) s;
                s \<leftarrow> store_Block (most_significant bn) (m\<lparr>next_block := cur_block\<rparr>) s;
                c \<leftarrow> load_Block cur_block s;
                s \<leftarrow> store_Block cur_block (c\<lparr>prev_block := most_significant bn\<rparr>) s;
                store_Bnum big_num (bn\<lparr>most_significant := cur_block\<rparr>) s
              });
        bn \<leftarrow> load_Bnum big_num s;
        store_Bnum big_num (bn\<lparr>struct_num_blocks := struct_num_blocks bn + 1\<rparr>) s
      })"

function c_create_loop :: "uint64 \<Rightarrow> addr \<Rightarrow> store \<Rightarrow> store option" where
  "c_create_loop num big_num s =
     (if num > 0
      then do {
        s \<leftarrow> c_add_block big_num (low_block num) s;
        c_create_loop (drop_bit BLOCK_SIZE num) big_num s
      }
      else Some s)"
  by pat_completeness auto
termination
proof (relation "measure (\<lambda>(num, big_num, s). unat num)")
  show "wf (measure (\<lambda>(num, big_num, s). unat num))"
    by simp
next
  fix num :: uint64 and big_num :: addr and s s' :: store
  assume "0 < num"
  then have "0 < unat num"
    by (simp add: word_greater_zero_iff unat_gt_0)
  moreover have "unat (drop_bit BLOCK_SIZE num) = unat num div 2 ^ BLOCK_SIZE"
    by (simp add: BLOCK_SIZE_def drop_bit_eq_div unat_div)
  ultimately have "unat (drop_bit BLOCK_SIZE num) < unat num"
    by (simp add: BLOCK_SIZE_def)
  then show "((drop_bit BLOCK_SIZE num, big_num, s'), (num, big_num, s))
               \<in> measure (\<lambda>(num, big_num, s). unat num)"
    by simp
qed

declare c_create_loop.simps [simp del]

definition c_Bnum_create :: "uint64 \<Rightarrow> store \<Rightarrow> (addr \<times> store) option" where
  "c_Bnum_create num s =
     (case malloc_Bnum s of (big_num, s) \<Rightarrow> do {
        s \<leftarrow> store_Bnum big_num
              \<lparr>struct_num_blocks = 0, least_significant = NULL, most_significant = NULL\<rparr> s;
        if num = 0 then Some (big_num, s)
        else do {
          s \<leftarrow> c_create_loop num big_num s;
          Some (big_num, s)
        }
      })"

partial_function (option) destroy_loop :: "addr \<Rightarrow> store \<Rightarrow> store option" where
  "destroy_loop cur s =
     (if cur \<noteq> NULL
      then do {
        c \<leftarrow> load_Block cur s;
        s \<leftarrow> free_Block cur s;
        destroy_loop (next_block c) s
      }
      else Some s)"

definition c_Bnum_destroy :: "addr \<Rightarrow> store \<Rightarrow> store option" where
  "c_Bnum_destroy big_num s = do {
     bn \<leftarrow> load_Bnum big_num s;
     s \<leftarrow> destroy_loop (least_significant bn) s;
     free_Bnum big_num s
   }"

partial_function (option) c_eq_loop :: "addr \<Rightarrow> addr \<Rightarrow> store \<Rightarrow> (bool \<times> store) option" where
  "c_eq_loop cur_block_a cur_block_b s =
     (if cur_block_a \<noteq> NULL \<and> cur_block_b \<noteq> NULL
      then do {
        x \<leftarrow> load_Block cur_block_a s;
        y \<leftarrow> load_Block cur_block_b s;
        if val x \<noteq> val y then Some (False, s)
        else c_eq_loop (next_block x) (next_block y) s
      }
      else if cur_block_a \<noteq> NULL \<or> cur_block_b \<noteq> NULL then Some (False, s)
      else Some (True, s))"

definition c_Bnum_eq :: "addr \<Rightarrow> addr \<Rightarrow> store \<Rightarrow> (bool \<times> store) option" where
  "c_Bnum_eq a b s = do {
     A \<leftarrow> load_Bnum a s;
     B \<leftarrow> load_Bnum b s;
     c_eq_loop (least_significant A) (least_significant B) s
   }"

definition c_Bnum_ne :: "addr \<Rightarrow> addr \<Rightarrow> store \<Rightarrow> (bool \<times> store) option" where
  "c_Bnum_ne a b s = do {
     (r, s) \<leftarrow> c_Bnum_eq a b s;
     Some (\<not> r, s)
   }"

partial_function (option) c_le_loop :: "addr \<Rightarrow> addr \<Rightarrow> store \<Rightarrow> (bool \<times> store) option" where
  "c_le_loop cur_block_a cur_block_b s =
     (if cur_block_a \<noteq> NULL \<and> cur_block_b \<noteq> NULL
      then do {
        x \<leftarrow> load_Block cur_block_a s;
        y \<leftarrow> load_Block cur_block_b s;
        if val x \<noteq> val y then Some (val x < val y, s)
        else c_le_loop (prev_block x) (prev_block y) s
      }
      else Some (True, s))"

partial_function (option) c_ge_loop :: "addr \<Rightarrow> addr \<Rightarrow> store \<Rightarrow> (bool \<times> store) option" where
  "c_ge_loop cur_block_a cur_block_b s =
     (if cur_block_a \<noteq> NULL \<and> cur_block_b \<noteq> NULL
      then do {
        x \<leftarrow> load_Block cur_block_a s;
        y \<leftarrow> load_Block cur_block_b s;
        if val x \<noteq> val y then Some (val x > val y, s)
        else c_ge_loop (prev_block x) (prev_block y) s
      }
      else Some (True, s))"

definition c_Bnum_le :: "addr \<Rightarrow> addr \<Rightarrow> store \<Rightarrow> (bool \<times> store) option" where
  "c_Bnum_le a b s = do {
     A \<leftarrow> load_Bnum a s;
     B \<leftarrow> load_Bnum b s;
     if struct_num_blocks A \<noteq> struct_num_blocks B
     then Some (struct_num_blocks A < struct_num_blocks B, s)
     else c_le_loop (most_significant A) (most_significant B) s
   }"

definition c_Bnum_ge :: "addr \<Rightarrow> addr \<Rightarrow> store \<Rightarrow> (bool \<times> store) option" where
  "c_Bnum_ge a b s = do {
     A \<leftarrow> load_Bnum a s;
     B \<leftarrow> load_Bnum b s;
     if struct_num_blocks A \<noteq> struct_num_blocks B
     then Some (struct_num_blocks A > struct_num_blocks B, s)
     else c_ge_loop (most_significant A) (most_significant B) s
   }"

definition c_Bnum_lt :: "addr \<Rightarrow> addr \<Rightarrow> store \<Rightarrow> (bool \<times> store) option" where
  "c_Bnum_lt a b s = do {
     (r, s) \<leftarrow> c_Bnum_ge a b s;
     Some (\<not> r, s)
   }"

definition c_Bnum_gt :: "addr \<Rightarrow> addr \<Rightarrow> store \<Rightarrow> (bool \<times> store) option" where
  "c_Bnum_gt a b s = do {
     (r, s) \<leftarrow> c_Bnum_le a b s;
     Some (\<not> r, s)
   }"

partial_function (option) c_sum_both ::
  "addr \<Rightarrow> addr \<Rightarrow> uint64 \<Rightarrow> addr \<Rightarrow> store \<Rightarrow> (addr \<times> addr \<times> uint64 \<times> store) option" where
  "c_sum_both cur_block_a cur_block_b carry sum_bn s =
     (if cur_block_a \<noteq> NULL \<and> cur_block_b \<noteq> NULL
      then do {
        x \<leftarrow> load_Block cur_block_a s;
        y \<leftarrow> load_Block cur_block_b s;
        let block_sum = (ucast (val x) :: uint64) + (ucast (val y) :: uint64) + carry;
        s \<leftarrow> c_add_block sum_bn (low_block block_sum) s;
        x \<leftarrow> load_Block cur_block_a s;
        y \<leftarrow> load_Block cur_block_b s;
        c_sum_both (next_block x) (next_block y) (drop_bit BLOCK_SIZE block_sum) sum_bn s
      }
      else Some (cur_block_a, cur_block_b, carry, s))"

partial_function (option) c_sum_rest :: "addr \<Rightarrow> uint64 \<Rightarrow> addr \<Rightarrow> store \<Rightarrow> store option" where
  "c_sum_rest cur_block carry sum_bn s =
     (if cur_block \<noteq> NULL
      then do {
        x \<leftarrow> load_Block cur_block s;
        let block_sum = (ucast (val x) :: uint64) + carry;
        s \<leftarrow> c_add_block sum_bn (low_block block_sum) s;
        x \<leftarrow> load_Block cur_block s;
        c_sum_rest (next_block x) (drop_bit BLOCK_SIZE block_sum) sum_bn s
      }
      else Some s)"

definition c_Bnum_sum :: "addr \<Rightarrow> addr \<Rightarrow> store \<Rightarrow> (addr \<times> store) option" where
  "c_Bnum_sum a b s = do {
     (sum_bn, s) \<leftarrow> c_Bnum_create 0 s;
     A \<leftarrow> load_Bnum a s;
     B \<leftarrow> load_Bnum b s;
     (cur_block_a, cur_block_b, carry, s) \<leftarrow>
        c_sum_both (least_significant A) (least_significant B) 0 sum_bn s;
     s \<leftarrow> c_sum_rest (if cur_block_a \<noteq> NULL then cur_block_a else cur_block_b) carry sum_bn s;
     Some (sum_bn, s)
   }"

function c_zero_loop :: "int \<Rightarrow> int \<Rightarrow> addr \<Rightarrow> store \<Rightarrow> store option" where
  "c_zero_loop i shift cur_product s =
     (if i < shift
      then do {
        s \<leftarrow> c_add_block cur_product 0 s;
        c_zero_loop (i + 1) shift cur_product s
      }
      else Some s)"
  by pat_completeness auto
termination
  by (relation "measure (\<lambda>(i, shift, cur_product, s). nat (shift - i))") auto

declare c_zero_loop.simps [simp del]

partial_function (option) c_mult_block ::
  "addr \<Rightarrow> addr \<Rightarrow> uint64 \<Rightarrow> addr \<Rightarrow> store \<Rightarrow> (uint64 \<times> store) option" where
  "c_mult_block cur_block_a cur_block_b carry cur_product s =
     (if cur_block_b \<noteq> NULL
      then do {
        x \<leftarrow> load_Block cur_block_a s;
        y \<leftarrow> load_Block cur_block_b s;
        let block_product = (ucast (val x) :: uint64) * (ucast (val y) :: uint64) + carry;
        s \<leftarrow> c_add_block cur_product (low_block block_product) s;
        y \<leftarrow> load_Block cur_block_b s;
        c_mult_block cur_block_a (next_block y) (drop_bit BLOCK_SIZE block_product)
          cur_product s
      }
      else Some (carry, s))"

partial_function (option) c_mult_loop ::
  "addr \<Rightarrow> addr \<Rightarrow> int \<Rightarrow> addr \<Rightarrow> store \<Rightarrow> (addr \<times> store) option" where
  "c_mult_loop cur_block_a b shift product_bn s =
     (if cur_block_a \<noteq> NULL
      then do {
        (cur_product, s) \<leftarrow> c_Bnum_create 0 s;
        s \<leftarrow> c_zero_loop 0 shift cur_product s;
        B \<leftarrow> load_Bnum b s;
        (carry, s) \<leftarrow> c_mult_block cur_block_a (least_significant B) 0 cur_product s;
        s \<leftarrow> (if carry \<noteq> 0 then c_add_block cur_product (ucast carry) s else Some s);
        (product_bn', s) \<leftarrow> c_Bnum_sum product_bn cur_product s;
        s \<leftarrow> c_Bnum_destroy product_bn s;
        s \<leftarrow> c_Bnum_destroy cur_product s;
        x \<leftarrow> load_Block cur_block_a s;
        c_mult_loop (next_block x) b (shift + 1) product_bn' s
      }
      else Some (product_bn, s))"

definition c_Bnum_mult :: "addr \<Rightarrow> addr \<Rightarrow> store \<Rightarrow> (addr \<times> store) option" where
  "c_Bnum_mult a b s = do {
     (product_bn, s) \<leftarrow> c_Bnum_create 0 s;
     A \<leftarrow> load_Bnum a s;
     c_mult_loop (least_significant A) b 0 product_bn s
   }"

function c_pow_loop :: "int \<Rightarrow> int \<Rightarrow> addr \<Rightarrow> addr \<Rightarrow> store \<Rightarrow> (addr \<times> store) option" where
  "c_pow_loop i n a result s =
     (if i < n
      then do {
        (result', s) \<leftarrow> c_Bnum_mult result a s;
        s \<leftarrow> c_Bnum_destroy result s;
        c_pow_loop (i + 1) n a result' s
      }
      else Some (result, s))"
  by pat_completeness auto
termination
  by (relation "measure (\<lambda>(i, n, a, result, s). nat (n - i))") auto

declare c_pow_loop.simps [simp del]

definition c_Bnum_pow :: "addr \<Rightarrow> int \<Rightarrow> store \<Rightarrow> (addr \<times> store) option" where
  "c_Bnum_pow a n s = do {
     (result, s) \<leftarrow> c_Bnum_create 1 s;
     c_pow_loop 0 n a result s
   }"

definition empty_store :: store where
  "empty_store = \<lparr>Blocks = fmempty, Bnums = fmempty, brk = 0\<rparr>"

section \<open>Chains in the store\<close>

text \<open>
  \<open>fwd s p ps vs\<close>: following \<open>next\<close> from \<open>p\<close> visits the blocks at the addresses
  \<open>ps\<close>, which hold the values \<open>vs\<close>, and ends in \<open>NULL\<close>. \<open>bwd\<close> is the same
  along \<open>prev\<close>.
\<close>

fun fwd :: "store \<Rightarrow> addr \<Rightarrow> addr list \<Rightarrow> uint32 list \<Rightarrow> bool" where
  "fwd s p [] [] = (p = NULL)"
| "fwd s p (q # qs) (v # vs) =
     (p = q \<and> q \<noteq> NULL \<and>
      (case fmlookup (Blocks s) q of
         None \<Rightarrow> False
       | Some c \<Rightarrow> val c = v \<and> fwd s (next_block c) qs vs))"
| "fwd s p qs vs = False"

fun bwd :: "store \<Rightarrow> addr \<Rightarrow> addr list \<Rightarrow> uint32 list \<Rightarrow> bool" where
  "bwd s p [] [] = (p = NULL)"
| "bwd s p (q # qs) (v # vs) =
     (p = q \<and> q \<noteq> NULL \<and>
      (case fmlookup (Blocks s) q of
         None \<Rightarrow> False
       | Some c \<Rightarrow> val c = v \<and> bwd s (prev_block c) qs vs))"
| "bwd s p qs vs = False"

text \<open>
  \<open>bnum_at s a ps x\<close>: the \<open>Bnum\<close> struct at address \<open>a\<close> of the store \<open>s\<close> is the
  big number \<open>x\<close> of the first model, its blocks being at the distinct addresses \<open>ps\<close>,
  least significant first.
\<close>

definition bnum_at :: "store \<Rightarrow> addr \<Rightarrow> addr list \<Rightarrow> Bnum \<Rightarrow> bool" where
  "bnum_at s a ps x =
     (a \<noteq> NULL \<and> distinct ps \<and>
      (case fmlookup (Bnums s) a of
         None \<Rightarrow> False
       | Some A \<Rightarrow>
           struct_num_blocks A = num_blocks x \<and>
           fwd s (least_significant A) ps (blocks x) \<and>
           bwd s (most_significant A) (rev ps) (rev (blocks x))))"

text \<open>The allocator's invariant: every allocated address has been handed out.\<close>

definition heap_ok :: "store \<Rightarrow> bool" where
  "heap_ok s =
     ((\<forall>p \<in> fmdom' (Blocks s). 0 < p \<and> p \<le> brk s) \<and>
      (\<forall>p \<in> fmdom' (Bnums s). 0 < p \<and> p \<le> brk s))"

text \<open>\<open>unchanged b s s'\<close>: the two stores hold the same at every address up to \<open>b\<close>.\<close>

definition unchanged :: "addr \<Rightarrow> store \<Rightarrow> store \<Rightarrow> bool" where
  "unchanged b s s' =
     (\<forall>q \<le> b. fmlookup (Blocks s') q = fmlookup (Blocks s) q \<and>
              fmlookup (Bnums s') q = fmlookup (Bnums s) q)"

text \<open>
  \<open>store_kept s s'\<close>: every struct allocated in \<open>s\<close> is still allocated in \<open>s'\<close> and
  holds the same. \<open>fresh_at s s' r rs z\<close>: in \<open>s'\<close> the big number \<open>z\<close> is at \<open>r\<close> with
  its blocks at \<open>rs\<close>, and none of these addresses was allocated in \<open>s\<close>.
\<close>

definition store_kept :: "store \<Rightarrow> store \<Rightarrow> bool" where
  "store_kept s s' =
     ((\<forall>q \<in> fmdom' (Blocks s). fmlookup (Blocks s') q = fmlookup (Blocks s) q) \<and>
      (\<forall>q \<in> fmdom' (Bnums s). fmlookup (Bnums s') q = fmlookup (Bnums s) q))"

definition fresh_at :: "store \<Rightarrow> store \<Rightarrow> addr \<Rightarrow> addr list \<Rightarrow> Bnum \<Rightarrow> bool" where
  "fresh_at s s' r rs z =
     (r \<notin> fmdom' (Bnums s) \<and> set rs \<inter> fmdom' (Blocks s) = {} \<and> bnum_at s' r rs z)"

text \<open>
  The store that \<open>Bnum_create(7)\<close> followed by \<open>Bnum_create(4294967296)\<close> leave when
  started in the empty store: the first number at address 1 with its block at 2, the
  second at 3 with its blocks at 4 and 5.
\<close>

definition two_numbers :: store where
  "two_numbers =
     \<lparr>Blocks =
        fmupd 5 \<lparr>val = 1, next_block = NULL, prev_block = 4\<rparr>
          (fmupd 4 \<lparr>val = 0, next_block = 5, prev_block = NULL\<rparr>
            (fmupd 2 \<lparr>val = 7, next_block = NULL, prev_block = NULL\<rparr> fmempty)),
      Bnums =
        fmupd 3 \<lparr>struct_num_blocks = 2, least_significant = 4, most_significant = 5\<rparr>
          (fmupd 1 \<lparr>struct_num_blocks = 1, least_significant = 2, most_significant = 2\<rparr>
            fmempty),
      brk = 5\<rparr>"

section \<open>Words and digits\<close>

text \<open>Names for the cases of the loops over two chains.\<close>

lemmas eq_loop_induct = eq_loop.induct [case_names both first_empty second_empty]
lemmas le_loop_induct = le_loop.induct [case_names both first_empty second_empty]
lemmas ge_loop_induct = ge_loop.induct [case_names both first_empty second_empty]
lemmas sum_both_induct = sum_both.induct [case_names both first_empty second_empty]

lemma low_block_ucast: "low_block x = ucast x"
proof -
  have m: "(4294967295 :: uint64) = mask 32"
    by (simp add: mask_eq_exp_minus_1)
  show ?thesis
    unfolding low_block_def BLOCK_MASK_def m
    by (rule bit_word_eqI) (auto simp add: bit_simps)
qed

lemma unat_low_block: "unat (low_block x) = unat x mod 2 ^ 32"
  by (simp add: low_block_ucast unsigned_ucast_eq take_bit_eq_mod)

lemma unat_drop_block: "unat (drop_bit BLOCK_SIZE (x :: uint64)) = unat x div 2 ^ 32"
  by (simp add: BLOCK_SIZE_def drop_bit_eq_div unat_div)

lemma blocks_add_block: "blocks (add_block bn v) = blocks bn @ [v]"
  by (simp add: add_block_def)

lemma num_blocks_add_block: "num_blocks (add_block bn v) = num_blocks bn + 1"
  by (simp add: add_block_def)

lemma count_ok_add_block: "count_ok bn \<Longrightarrow> count_ok (add_block bn v)"
  by (simp add: count_ok_def add_block_def)

lemma value_of_append:
  "value_of (xs @ ys) = value_of xs + 2 ^ (32 * length xs) * value_of ys"
  by (induction xs) (simp_all add: algebra_simps power_add)

lemma value_of_bound: "value_of xs < 2 ^ (32 * length xs)"
proof (induction xs)
  case Nil
  show ?case by simp
next
  case (Cons x xs)
  have "unat x < 2 ^ 32"
    using unsigned_less [of x] by simp
  moreover have "value_of xs + 1 \<le> 2 ^ (32 * length xs)"
    using Cons.IH by simp
  then have "2 ^ 32 * (value_of xs + 1) \<le> 2 ^ 32 * 2 ^ (32 * length xs)"
    by (rule mult_le_mono2)
  ultimately show ?case
    by (simp add: power_add)
qed

lemma block_split:
  "unat (low_block x) + 2 ^ 32 * unat (drop_bit BLOCK_SIZE x) = unat x"
  by (simp add: unat_low_block unat_drop_block)

lemma create_loop_value:
  "value_of (blocks (create_loop num bn)) =
     value_of (blocks bn) + 2 ^ (32 * length (blocks bn)) * unat num"
proof (induction num bn rule: create_loop.induct)
  case (1 num big_num)
  show ?case
  proof (cases "num > 0")
    case True
    let ?lo = "low_block num" and ?hi = "drop_bit BLOCK_SIZE num"
    have "value_of (blocks (create_loop num big_num)) =
            value_of (blocks (create_loop ?hi (add_block big_num ?lo)))"
      using True by (subst create_loop.simps) simp
    also have "\<dots> = value_of (blocks big_num) +
                 2 ^ (32 * length (blocks big_num)) * (unat ?lo + 2 ^ 32 * unat ?hi)"
      by (simp add: "1.IH" [OF True] blocks_add_block value_of_append algebra_simps power_add)
    finally show ?thesis
      by (simp only: block_split)
  next
    case False
    then have "num = 0"
      by (simp add: word_greater_zero_iff)
    then show ?thesis
      by (subst create_loop.simps) simp
  qed
qed

lemma create_loop_count:
  "count_ok bn \<Longrightarrow> count_ok (create_loop num bn)"
proof (induction num bn rule: create_loop.induct)
  case (1 num big_num)
  show ?case
  proof (cases "num > 0")
    case True
    then show ?thesis
      using "1.IH" [OF True] "1.prems"
      by (subst create_loop.simps) (simp add: count_ok_add_block)
  next
    case False
    then show ?thesis
      using "1.prems" by (subst create_loop.simps) simp
  qed
qed

lemma create_loop_last:
  "num \<noteq> 0 \<Longrightarrow> blocks (create_loop num bn) \<noteq> [] \<and> last (blocks (create_loop num bn)) \<noteq> 0"
proof (induction num bn rule: create_loop.induct)
  case (1 num big_num)
  from "1.prems" have pos: "num > 0"
    by (simp add: word_greater_zero_iff)
  let ?lo = "low_block num" and ?hi = "drop_bit BLOCK_SIZE num"
  have unfold: "create_loop num big_num = create_loop ?hi (add_block big_num ?lo)"
    using pos by (subst create_loop.simps) simp
  show ?case
  proof (cases "?hi = 0")
    case True
    have "unat ?lo = unat num"
      using block_split [of num] True by simp
    then have "?lo \<noteq> 0"
      using "1.prems" by (metis unat_eq_0)
    moreover have "create_loop ?hi (add_block big_num ?lo) = add_block big_num ?lo"
      using True by (subst create_loop.simps) simp
    ultimately show ?thesis
      by (simp add: unfold blocks_add_block)
  next
    case False
    then show ?thesis
      using "1.IH" [OF pos] by (simp add: unfold)
  qed
qed

lemma Bnum_create_value: "Bnum_value (Bnum_create v) = unat v"
  by (simp add: Bnum_value_def Bnum_create_def empty_Bnum_def create_loop_value)

lemma Bnum_create_count: "count_ok (Bnum_create v)"
proof -
  have "count_ok empty_Bnum"
    by (simp add: count_ok_def empty_Bnum_def)
  then show ?thesis
    by (simp add: Bnum_create_def create_loop_count)
qed

lemma Bnum_create_canonical: "canonical (Bnum_create v)"
  using create_loop_last [of v empty_Bnum] Bnum_create_count [of v]
  by (auto simp add: canonical_def Bnum_create_def empty_Bnum_def)

lemma Bnum_create_blocks:
  "blocks (Bnum_create v) =
     (if v = 0 then []
      else if drop_bit BLOCK_SIZE v = 0 then [low_block v]
      else [low_block v, low_block (drop_bit BLOCK_SIZE v)])"
proof -
  have hi: "drop_bit (BLOCK_SIZE + BLOCK_SIZE) v = 0"
    by (rule bit_word_eqI) (simp add: BLOCK_SIZE_def bit_simps)
  have step: "\<And>n bn. n \<noteq> 0 \<Longrightarrow>
       create_loop n bn = create_loop (drop_bit BLOCK_SIZE n) (add_block bn (low_block n))"
    by (subst create_loop.simps) (simp add: word_greater_zero_iff)
  have stop: "\<And>bn. create_loop 0 bn = bn"
    by (subst create_loop.simps) simp
  show ?thesis
    by (simp add: Bnum_create_def step stop hi blocks_add_block empty_Bnum_def)
qed

lemma drop_block_zero_iff: "drop_bit BLOCK_SIZE (v :: uint64) = 0 \<longleftrightarrow> v < 4294967296"
proof -
  have "drop_bit BLOCK_SIZE v = 0 \<longleftrightarrow> unat (drop_bit BLOCK_SIZE v) = 0"
    by (simp add: unat_eq_0)
  also have "\<dots> \<longleftrightarrow> unat v < 4294967296"
    by (simp add: unat_drop_block div_eq_0_iff)
  also have "\<dots> \<longleftrightarrow> v < 4294967296"
    by (simp add: word_less_nat_alt)
  finally show ?thesis .
qed

text \<open>
  Claim C6. For every 64-bit value \<open>v\<close>, \<open>Bnum_create v\<close> returns (the function is
  total) the base-\<open>2^32\<close> digits of \<open>v\<close>, least significant first, without
  most-significant zero digits; \<open>v = 0\<close> gives the empty chain; the value
  \<open>\<Sum> digit[i] * 2^(32 * i)\<close> of the result is \<open>v\<close>.
\<close>

theorem Bnum_create_digits:
  "Bnum_value (Bnum_create v) = unat v \<and> canonical (Bnum_create v) \<and>
   blocks (Bnum_create v) =
     (if v = 0 then []
      else if v < 4294967296 then [ucast v]
      else [ucast v, ucast (drop_bit 32 v)])"
proof -
  have "blocks (Bnum_create v) =
     (if v = 0 then []
      else if v < 4294967296 then [ucast v]
      else [ucast v, ucast (drop_bit 32 v)])"
    unfolding Bnum_create_blocks drop_block_zero_iff low_block_ucast
    by (simp add: BLOCK_SIZE_def)
  then show ?thesis
    by (simp add: Bnum_create_value Bnum_create_canonical)
qed

theorem Bnum_create_digits_witness:
  "Bnum_value (Bnum_create 4294967296) = 4294967296 \<and>
   canonical (Bnum_create 4294967296) \<and>
   blocks (Bnum_create 4294967296) = [0, 1]"
  using Bnum_create_digits [of 4294967296] by simp

section \<open>Addition: the length of the result\<close>

lemma sum_rest_length:
  "length (blocks (sum_rest xs c s)) = length (blocks s) + length xs"
  by (induction xs c s rule: sum_rest.induct) (simp_all add: Let_def blocks_add_block)

lemma sum_rest_num_blocks:
  "num_blocks (sum_rest xs c s) = num_blocks s + int (length xs)"
  by (induction xs c s rule: sum_rest.induct) (simp_all add: Let_def num_blocks_add_block)

lemma sum_loops_length:
  "length (blocks (case sum_both xs ys c s of
      (cur_block_a, cur_block_b, carry, sum_bn) \<Rightarrow>
        sum_rest (if cur_block_a \<noteq> [] then cur_block_a else cur_block_b) carry sum_bn))
   = length (blocks s) + max (length xs) (length ys)"
  by (induction xs ys c s rule: sum_both.induct)
     (simp_all add: Let_def blocks_add_block sum_rest_length)

lemma sum_loops_num_blocks:
  "num_blocks (case sum_both xs ys c s of
      (cur_block_a, cur_block_b, carry, sum_bn) \<Rightarrow>
        sum_rest (if cur_block_a \<noteq> [] then cur_block_a else cur_block_b) carry sum_bn)
   = num_blocks s + int (max (length xs) (length ys))"
  by (induction xs ys c s rule: sum_both.induct)
     (simp_all add: Let_def num_blocks_add_block sum_rest_num_blocks)

lemma Bnum_create_0: "Bnum_create 0 = empty_Bnum"
  by (simp add: Bnum_create_def)

text \<open>
  Claim C10. For every pair of big numbers, the result of \<open>Bnum_sum\<close> has exactly
  \<open>max (count a) (count b)\<close> blocks, in its chain and in its cached count: one block
  per position of the longer operand, and no block for a carry left at the end.
\<close>

theorem Bnum_sum_count:
  "length (blocks (Bnum_sum a b)) = max (length (blocks a)) (length (blocks b)) \<and>
   num_blocks (Bnum_sum a b) = int (max (length (blocks a)) (length (blocks b)))"
  unfolding Bnum_sum_def sum_loops_length sum_loops_num_blocks
  by (simp add: Bnum_create_0 empty_Bnum_def)

lemma Bnum_sum_count_ok: "count_ok (Bnum_sum a b)"
  unfolding count_ok_def Bnum_sum_def sum_loops_length sum_loops_num_blocks
  by (simp add: Bnum_create_0 empty_Bnum_def)

text \<open>
  Claim C1 says the sum has the value \<open>value a + value b\<close> and that a final carry is
  appended, so that \<open>(2^32 - 1) + 1\<close> has the blocks \<open>[0, 1]\<close>. \<open>Bnum_sum\<close> returns
  after its second loop and the carry is lost: on these operands the result is the one
  block \<open>[0]\<close>, of value 0, while the operands' values add up to \<open>2^32\<close>.
\<close>

theorem Bnum_sum_drops_carry:
  "blocks (Bnum_sum (Bnum_create 4294967295) (Bnum_create 1)) = [0] \<and>
   Bnum_value (Bnum_sum (Bnum_create 4294967295) (Bnum_create 1)) = 0 \<and>
   Bnum_value (Bnum_create 4294967295) + Bnum_value (Bnum_create 1) = 4294967296"
  by (simp add: Bnum_sum_def Bnum_value_def Bnum_create_blocks Bnum_create_0 empty_Bnum_def
      low_block_ucast BLOCK_SIZE_def add_block_def)

section \<open>Exponentiation with no iteration\<close>

lemma pow_loop_stop: "n \<le> i \<Longrightarrow> pow_loop i n a result = result"
  by (subst pow_loop.simps) simp

text \<open>
  Claim C8. For every big number \<open>a\<close> and every exponent \<open>n \<le> 0\<close>, \<open>Bnum_pow a n\<close> is
  the big number 1 that \<open>Bnum_create 1\<close> builds: the loop body does not run, whether
  \<open>n = 0\<close> or \<open>n < 0\<close>, and whether or not \<open>a\<close> is zero.
\<close>

theorem Bnum_pow_nonpositive:
  "n \<le> 0 \<Longrightarrow> Bnum_pow a n = Bnum_create 1 \<and> blocks (Bnum_pow a n) = [1] \<and>
     num_blocks (Bnum_pow a n) = 1 \<and> Bnum_value (Bnum_pow a n) = 1"
proof -
  assume "n \<le> 0"
  then have "Bnum_pow a n = Bnum_create 1"
    by (simp add: Bnum_pow_def pow_loop_stop)
  moreover have "blocks (Bnum_create 1) = [1]"
    by (simp add: Bnum_create_blocks low_block_ucast BLOCK_SIZE_def)
  moreover have "num_blocks (Bnum_create 1) = 1"
    using Bnum_create_count [of 1] \<open>blocks (Bnum_create 1) = [1]\<close>
    by (simp add: count_ok_def)
  ultimately show ?thesis
    by (simp add: Bnum_value_def)
qed

theorem Bnum_pow_nonpositive_witness:
  "(-3 :: int) \<le> 0 \<and> blocks (Bnum_pow (Bnum_create 0) (-3)) = [1] \<and>
   blocks (Bnum_pow (Bnum_create 0) 0) = [1] \<and>
   Bnum_value (Bnum_pow (Bnum_create 0) 0) = 1"
  using Bnum_pow_nonpositive [of "-3" "Bnum_create 0"]
    Bnum_pow_nonpositive [of 0 "Bnum_create 0"]
  by (simp add: Bnum_value_def Bnum_create_blocks low_block_ucast BLOCK_SIZE_def)

section \<open>How the six comparisons relate\<close>

lemma eq_loop_iff: "eq_loop xs ys \<longleftrightarrow> xs = ys"
  by (induction xs ys rule: eq_loop.induct) auto

lemma le_ge_loop_total:
  "length ms = length ns \<Longrightarrow> le_loop ms ns \<or> ge_loop ms ns"
  by (induction ms ns rule: list_induct2) auto

lemma le_ge_loop_antisym:
  "length ms = length ns \<Longrightarrow> le_loop ms ns \<and> ge_loop ms ns \<longleftrightarrow> ms = ns"
  by (induction ms ns rule: list_induct2) auto

text \<open>
  Claim C5. For big numbers whose cached count is the length of their chain,
  \<open>Bnum_lt\<close> is the negation of \<open>Bnum_ge\<close> and \<open>Bnum_gt\<close> the negation of \<open>Bnum_le\<close>;
  exactly one of \<open>Bnum_lt\<close>, \<open>Bnum_eq\<close>, \<open>Bnum_gt\<close> holds; and \<open>Bnum_le\<close> holds iff
  \<open>Bnum_lt\<close> or \<open>Bnum_eq\<close> does.
\<close>

theorem Bnum_trichotomy:
  assumes "count_ok a" and "count_ok b"
  shows "Bnum_lt a b = (\<not> Bnum_ge a b) \<and> Bnum_gt a b = (\<not> Bnum_le a b) \<and>
         ((Bnum_lt a b \<and> \<not> Bnum_eq a b \<and> \<not> Bnum_gt a b) \<or>
          (\<not> Bnum_lt a b \<and> Bnum_eq a b \<and> \<not> Bnum_gt a b) \<or>
          (\<not> Bnum_lt a b \<and> \<not> Bnum_eq a b \<and> Bnum_gt a b)) \<and>
         Bnum_le a b = (Bnum_lt a b \<or> Bnum_eq a b)"
proof (cases "num_blocks a = num_blocks b")
  case False
  then have "blocks a \<noteq> blocks b"
    using assms by (auto simp add: count_ok_def)
  with False show ?thesis
    by (auto simp add: Bnum_lt_def Bnum_gt_def Bnum_le_def Bnum_ge_def Bnum_eq_def eq_loop_iff)
next
  case True
  then have len: "length (rev (blocks a)) = length (rev (blocks b))"
    using assms by (simp add: count_ok_def)
  have eq: "Bnum_eq a b \<longleftrightarrow> rev (blocks a) = rev (blocks b)"
    by (simp add: Bnum_eq_def eq_loop_iff)
  show ?thesis
    using True le_ge_loop_total [OF len] le_ge_loop_antisym [OF len]
    by (auto simp add: Bnum_lt_def Bnum_gt_def Bnum_le_def Bnum_ge_def eq)
qed

theorem Bnum_trichotomy_witness:
  "count_ok (Bnum_create 5) \<and> count_ok (Bnum_create 4294967296) \<and>
   Bnum_lt (Bnum_create 5) (Bnum_create 4294967296) \<and>
   \<not> Bnum_eq (Bnum_create 5) (Bnum_create 4294967296) \<and>
   \<not> Bnum_gt (Bnum_create 5) (Bnum_create 4294967296) \<and>
   Bnum_le (Bnum_create 5) (Bnum_create 4294967296)"
proof -
  have a: "count_ok (Bnum_create 5)" and b: "count_ok (Bnum_create 4294967296)"
    by (rule Bnum_create_count)+
  have "\<not> Bnum_eq (Bnum_create 5) (Bnum_create 4294967296)"
    by (simp add: Bnum_eq_def Bnum_create_blocks low_block_ucast BLOCK_SIZE_def)
  moreover have "Bnum_le (Bnum_create 5) (Bnum_create 4294967296)"
    using a b
    by (simp add: Bnum_le_def count_ok_def Bnum_create_blocks low_block_ucast BLOCK_SIZE_def)
  ultimately show ?thesis
    using Bnum_trichotomy [OF a b] a b by blast
qed

section \<open>Ordering and values\<close>

lemma value_of_snoc:
  "value_of (xs @ [x]) = value_of xs + 2 ^ (32 * length xs) * unat x"
  by (simp add: value_of_append)

lemma value_of_lower_bound:
  assumes "xs \<noteq> []" and "last xs \<noteq> 0"
  shows "2 ^ (32 * (length xs - 1)) \<le> value_of xs"
proof -
  from assms(1) obtain ys y where xs: "xs = ys @ [y]"
    by (metis append_butlast_last_id)
  with assms(2) have "y \<noteq> 0"
    by simp
  then have "unat y \<noteq> 0"
    by (simp add: unat_eq_0)
  then have "1 \<le> unat y"
    by simp
  then have "2 ^ (32 * length ys) * 1 \<le> 2 ^ (32 * length ys) * unat y"
    by (rule mult_le_mono2)
  then show ?thesis
    by (simp add: xs value_of_snoc trans_le_add2)
qed

lemma shorter_canonical_less:
  assumes "length xs < length ys" and "last ys \<noteq> 0"
  shows "value_of xs < value_of ys"
proof -
  from assms(1) have ne: "ys \<noteq> []"
    by auto
  have "value_of xs < 2 ^ (32 * length xs)"
    by (rule value_of_bound)
  also have "(2::nat) ^ (32 * length xs) \<le> 2 ^ (32 * (length ys - 1))"
    using assms(1) by (intro power_increasing) simp_all
  also have "\<dots> \<le> value_of ys"
    using ne assms(2) by (rule value_of_lower_bound)
  finally show ?thesis .
qed

lemma top_digit_decides:
  fixes A A' B x y :: nat
  assumes "A < B" and "A' < B" and "x < y"
  shows "A + B * x < A' + B * y"
proof -
  have "A + B * x < B + B * x"
    using assms(1) by simp
  also have "\<dots> = B * (x + 1)"
    by simp
  also have "\<dots> \<le> B * y"
    using assms(3) by (intro mult_le_mono2) simp
  also have "\<dots> \<le> A' + B * y"
    by simp
  finally show ?thesis .
qed

lemma le_loop_value:
  "length ms = length ns \<Longrightarrow> le_loop ms ns \<longleftrightarrow> value_of (rev ms) \<le> value_of (rev ns)"
proof (induction ms ns rule: list_induct2)
  case Nil
  show ?case by simp
next
  case (Cons x ms y ns)
  let ?B = "2 ^ (32 * length ms) :: nat"
  have A: "value_of (rev ms) < ?B" and A': "value_of (rev ns) < ?B"
    using value_of_bound [of "rev ms"] value_of_bound [of "rev ns"] Cons.hyps by simp_all
  consider "x < y" | "y < x" | "x = y"
    by (metis linorder_less_linear)
  then show ?case
  proof cases
    case 1
    then have "unat x < unat y"
      by (simp add: word_less_nat_alt)
    from top_digit_decides [OF A A' this] 1 Cons.hyps show ?thesis
      by (auto simp add: value_of_snoc)
  next
    case 2
    then have "unat y < unat x"
      by (simp add: word_less_nat_alt)
    from top_digit_decides [OF A' A this] 2 Cons.hyps show ?thesis
      by (auto simp add: value_of_snoc)
  next
    case 3
    with Cons show ?thesis
      by (simp add: value_of_snoc)
  qed
qed

lemma ge_loop_value:
  "length ms = length ns \<Longrightarrow> ge_loop ms ns \<longleftrightarrow> value_of (rev ns) \<le> value_of (rev ms)"
proof (induction ms ns rule: list_induct2)
  case Nil
  show ?case by simp
next
  case (Cons x ms y ns)
  let ?B = "2 ^ (32 * length ms) :: nat"
  have A: "value_of (rev ms) < ?B" and A': "value_of (rev ns) < ?B"
    using value_of_bound [of "rev ms"] value_of_bound [of "rev ns"] Cons.hyps by simp_all
  consider "x < y" | "y < x" | "x = y"
    by (metis linorder_less_linear)
  then show ?case
  proof cases
    case 1
    then have "unat x < unat y"
      by (simp add: word_less_nat_alt)
    from top_digit_decides [OF A A' this] 1 Cons.hyps show ?thesis
      by (auto simp add: value_of_snoc)
  next
    case 2
    then have "unat y < unat x"
      by (simp add: word_less_nat_alt)
    from top_digit_decides [OF A' A this] 2 Cons.hyps show ?thesis
      by (auto simp add: value_of_snoc)
  next
    case 3
    with Cons show ?thesis
      by (simp add: value_of_snoc)
  qed
qed

text \<open>
  Claim C4. For canonical big numbers \<open>a\<close> and \<open>b\<close>, \<open>Bnum_le a b\<close> holds iff
  \<open>value a \<le> value b\<close> and \<open>Bnum_ge a b\<close> iff \<open>value a \<ge> value b\<close>. When the counts
  differ, the operand with more blocks has the strictly greater value, whatever the
  blocks hold; when they are equal, the loops from the most significant block decide.
\<close>

theorem Bnum_le_ge_value:
  assumes "canonical a" and "canonical b"
  shows "Bnum_le a b = (Bnum_value a \<le> Bnum_value b) \<and>
         Bnum_ge a b = (Bnum_value a \<ge> Bnum_value b) \<and>
         (num_blocks a < num_blocks b \<longrightarrow> Bnum_value a < Bnum_value b) \<and>
         (num_blocks a = num_blocks b \<longrightarrow>
            Bnum_le a b = le_loop (rev (blocks a)) (rev (blocks b)) \<and>
            Bnum_ge a b = ge_loop (rev (blocks a)) (rev (blocks b)))"
proof -
  from assms have na: "num_blocks a = int (length (blocks a))"
    and nb: "num_blocks b = int (length (blocks b))"
    by (simp_all add: canonical_def count_ok_def)
  consider "length (blocks a) < length (blocks b)" | "length (blocks b) < length (blocks a)"
    | "length (blocks a) = length (blocks b)"
    by (metis linorder_less_linear)
  then show ?thesis
  proof cases
    case 1
    then have "blocks b \<noteq> []" by auto
    with assms(2) have "last (blocks b) \<noteq> 0"
      by (simp add: canonical_def)
    from shorter_canonical_less [OF 1 this] 1 show ?thesis
      by (simp add: Bnum_le_def Bnum_ge_def Bnum_value_def na nb)
  next
    case 2
    then have "blocks a \<noteq> []" by auto
    with assms(1) have "last (blocks a) \<noteq> 0"
      by (simp add: canonical_def)
    from shorter_canonical_less [OF 2 this] 2 show ?thesis
      by (simp add: Bnum_le_def Bnum_ge_def Bnum_value_def na nb)
  next
    case 3
    then have "length (rev (blocks a)) = length (rev (blocks b))"
      by simp
    from le_loop_value [OF this] ge_loop_value [OF this] 3 show ?thesis
      by (simp add: Bnum_le_def Bnum_ge_def Bnum_value_def na nb)
  qed
qed

theorem Bnum_le_ge_value_witness:
  "canonical (Bnum_create 4294967296) \<and> canonical (Bnum_create 4294967295) \<and>
   num_blocks (Bnum_create 4294967295) < num_blocks (Bnum_create 4294967296) \<and>
   Bnum_value (Bnum_create 4294967295) < Bnum_value (Bnum_create 4294967296) \<and>
   Bnum_le (Bnum_create 4294967295) (Bnum_create 4294967296) \<and>
   \<not> Bnum_ge (Bnum_create 4294967295) (Bnum_create 4294967296) \<and>
   canonical (Bnum_create 5) \<and> canonical (Bnum_create 9) \<and>
   num_blocks (Bnum_create 5) = num_blocks (Bnum_create 9) \<and>
   Bnum_le (Bnum_create 5) (Bnum_create 9) \<and> \<not> Bnum_ge (Bnum_create 5) (Bnum_create 9)"
proof -
  have a: "canonical (Bnum_create 4294967295)" and b: "canonical (Bnum_create 4294967296)"
    and c: "canonical (Bnum_create 5)" and d: "canonical (Bnum_create 9)"
    by (rule Bnum_create_canonical)+
  have "num_blocks (Bnum_create 4294967295) < num_blocks (Bnum_create 4294967296)"
    using a b
    by (simp add: canonical_def count_ok_def Bnum_create_blocks low_block_ucast BLOCK_SIZE_def)
  with Bnum_le_ge_value [OF a b] a b
  have first: "num_blocks (Bnum_create 4294967295) < num_blocks (Bnum_create 4294967296) \<and>
      Bnum_value (Bnum_create 4294967295) < Bnum_value (Bnum_create 4294967296) \<and>
      Bnum_le (Bnum_create 4294967295) (Bnum_create 4294967296) \<and>
      \<not> Bnum_ge (Bnum_create 4294967295) (Bnum_create 4294967296)"
    by simp
  have "num_blocks (Bnum_create 5) = num_blocks (Bnum_create 9)"
    using c d
    by (simp add: canonical_def count_ok_def Bnum_create_blocks low_block_ucast BLOCK_SIZE_def)
  with Bnum_le_ge_value [OF c d]
  have second: "num_blocks (Bnum_create 5) = num_blocks (Bnum_create 9) \<and>
      Bnum_le (Bnum_create 5) (Bnum_create 9) \<and> \<not> Bnum_ge (Bnum_create 5) (Bnum_create 9)"
    by (simp add: Bnum_create_value)
  from first second a b c d show ?thesis
    by blast
qed

section \<open>What addition computes\<close>

text \<open>
  With the final carry dropped, \<open>Bnum_sum\<close> computes the sum modulo \<open>2^(32 * n)\<close>, where
  \<open>n\<close> is the larger of the two block counts.
\<close>

lemma unat_block_less: "unat (x :: uint32) < 4294967296"
  using unsigned_less [of x] by simp

lemma unat_ucast_block: "unat (ucast (x :: uint32) :: uint64) = unat x"
proof -
  have "unat x < 2 ^ 64"
    using unat_block_less [of x] by simp
  then show ?thesis
    by (simp add: unsigned_ucast_eq take_bit_nat_eq_self)
qed

lemma unat_block_sum:
  assumes "unat carry \<le> 1"
  shows "unat ((ucast (x :: uint32) :: uint64) + (ucast (y :: uint32) :: uint64) + carry)
           = unat x + unat y + unat carry"
proof -
  have "unat x + unat y + unat carry < 2 ^ 64"
    using unat_block_less [of x] unat_block_less [of y] assms by simp
  then show ?thesis
    by (simp add: unat_word_ariths unat_ucast_block)
qed

lemma unat_block_sum1:
  assumes "unat carry \<le> 1"
  shows "unat ((ucast (x :: uint32) :: uint64) + carry) = unat x + unat carry"
  using unat_block_sum [OF assms, of x 0] by simp

lemma sum_rest_value:
  "unat carry \<le> 1 \<Longrightarrow>
   value_of (blocks (sum_rest xs carry s)) mod 2 ^ (32 * (length (blocks s) + length xs))
   = (value_of (blocks s) + 2 ^ (32 * length (blocks s)) * (value_of xs + unat carry))
       mod 2 ^ (32 * (length (blocks s) + length xs))"
proof (induction xs carry s rule: sum_rest.induct)
  case (1 x xs carry s)
  let ?bs = "(ucast x :: uint64) + carry"
  let ?n = "unat x + unat carry"
  have bs: "unat ?bs = ?n"
    using "1.prems" by (rule unat_block_sum1)
  have "?n < 2 * 2 ^ 32"
    using unat_block_less [of x] "1.prems" by simp
  then have c': "unat (drop_bit BLOCK_SIZE ?bs) \<le> 1"
    by (simp add: unat_drop_block bs less_mult_imp_div_less)
  let ?lo = "low_block ?bs" and ?hi = "drop_bit BLOCK_SIZE ?bs"
  have "value_of (blocks (add_block s ?lo))
          + 2 ^ (32 * length (blocks (add_block s ?lo))) * (value_of xs + unat ?hi)
        = value_of (blocks s) + 2 ^ (32 * length (blocks s))
            * ((unat ?lo + 2 ^ 32 * unat ?hi) + 2 ^ 32 * value_of xs)"
    by (simp add: blocks_add_block value_of_append algebra_simps power_add)
  also have "\<dots> = value_of (blocks s) + 2 ^ (32 * length (blocks s))
            * (unat ?bs + 2 ^ 32 * value_of xs)"
    by (simp only: block_split)
  also have "\<dots> = value_of (blocks s) + 2 ^ (32 * length (blocks s))
            * (value_of (x # xs) + unat carry)"
    by (simp only: bs) (simp add: algebra_simps)
  finally show ?case
    using "1.IH" [OF refl c'] by (simp add: Let_def blocks_add_block)
next
  case (2 carry s)
  have "value_of (blocks s) < 2 ^ (32 * length (blocks s))"
    by (rule value_of_bound)
  then show ?case
    by simp
qed

lemma sum_loops_value:
  "unat carry \<le> 1 \<Longrightarrow>
   value_of (blocks (case sum_both xs ys carry s of
      (cur_block_a, cur_block_b, carry, sum_bn) \<Rightarrow>
        sum_rest (if cur_block_a \<noteq> [] then cur_block_a else cur_block_b) carry sum_bn))
     mod 2 ^ (32 * (length (blocks s) + max (length xs) (length ys)))
   = (value_of (blocks s)
        + 2 ^ (32 * length (blocks s)) * (value_of xs + value_of ys + unat carry))
       mod 2 ^ (32 * (length (blocks s) + max (length xs) (length ys)))"
proof (induction xs ys carry s rule: sum_both_induct)
  case (both x xs y ys carry s)
  let ?bs = "(ucast x :: uint64) + (ucast y :: uint64) + carry"
  let ?lo = "low_block ?bs" and ?hi = "drop_bit BLOCK_SIZE ?bs"
  have bs: "unat ?bs = unat x + unat y + unat carry"
    using both.prems by (rule unat_block_sum)
  have "unat x + unat y + unat carry < 2 * 2 ^ 32"
    using unat_block_less [of x] unat_block_less [of y] both.prems by simp
  then have c': "unat ?hi \<le> 1"
    by (simp add: unat_drop_block bs less_mult_imp_div_less)
  have "value_of (blocks (add_block s ?lo))
          + 2 ^ (32 * length (blocks (add_block s ?lo)))
            * (value_of xs + value_of ys + unat ?hi)
        = value_of (blocks s) + 2 ^ (32 * length (blocks s))
            * ((unat ?lo + 2 ^ 32 * unat ?hi) + 2 ^ 32 * value_of xs + 2 ^ 32 * value_of ys)"
    by (simp add: blocks_add_block value_of_append algebra_simps power_add)
  also have "\<dots> = value_of (blocks s) + 2 ^ (32 * length (blocks s))
            * (unat ?bs + 2 ^ 32 * value_of xs + 2 ^ 32 * value_of ys)"
    by (simp only: block_split)
  also have "\<dots> = value_of (blocks s) + 2 ^ (32 * length (blocks s))
            * (value_of (x # xs) + value_of (y # ys) + unat carry)"
    by (simp only: bs) (simp add: algebra_simps)
  finally show ?case
    using both.IH [OF refl c'] by (simp add: Let_def blocks_add_block)
next
  case (first_empty ys carry s)
  then show ?case
    using sum_rest_value [of carry ys s] by simp
next
  case (second_empty xs carry s)
  have "(if xs \<noteq> [] then xs else []) = xs"
    by simp
  with second_empty show ?case
    using sum_rest_value [of carry xs s] by simp
qed

lemma Bnum_sum_value:
  "Bnum_value (Bnum_sum a b)
     = (Bnum_value a + Bnum_value b)
         mod 2 ^ (32 * max (length (blocks a)) (length (blocks b)))"
proof -
  let ?n = "max (length (blocks a)) (length (blocks b))"
  have "value_of (blocks (Bnum_sum a b)) < 2 ^ (32 * length (blocks (Bnum_sum a b)))"
    by (rule value_of_bound)
  then have "Bnum_value (Bnum_sum a b) < 2 ^ (32 * ?n)"
    by (simp add: Bnum_value_def sum_loops_length Bnum_sum_def Bnum_create_0 empty_Bnum_def)
  moreover have "Bnum_value (Bnum_sum a b) mod 2 ^ (32 * ?n)
      = (Bnum_value a + Bnum_value b) mod 2 ^ (32 * ?n)"
    using sum_loops_value [of 0 "blocks a" "blocks b" empty_Bnum]
    by (simp add: Bnum_value_def Bnum_sum_def Bnum_create_0) (simp add: empty_Bnum_def)
  ultimately show ?thesis
    by simp
qed

section \<open>Counts of results\<close>

lemma mult_loop_count_ok: "count_ok product_bn \<Longrightarrow> count_ok (mult_loop xs b shift product_bn)"
  by (induction xs b shift product_bn rule: mult_loop.induct)
     (simp_all add: split_def Let_def Bnum_sum_count_ok)

lemma Bnum_mult_count_ok: "count_ok (Bnum_mult a b)"
  by (simp add: Bnum_mult_def mult_loop_count_ok Bnum_create_count)

lemma pow_loop_count_ok: "count_ok result \<Longrightarrow> count_ok (pow_loop i n a result)"
proof (induction i n a result rule: pow_loop.induct)
  case (1 i n a result)
  show ?case
  proof (cases "i < n")
    case True
    then show ?thesis
      using "1.IH" [OF True Bnum_mult_count_ok] by (subst pow_loop.simps) simp
  next
    case False
    then show ?thesis
      using "1.prems" by (subst pow_loop.simps) simp
  qed
qed

lemma Bnum_pow_count_ok: "count_ok (Bnum_pow a n)"
  by (simp add: Bnum_pow_def pow_loop_count_ok Bnum_create_count)

section \<open>Runs on concrete operands\<close>

lemmas run_simps =
  Bnum_create_def empty_Bnum_def create_loop.simps low_block_ucast BLOCK_SIZE_def add_block_def
  Bnum_sum_def Bnum_mult_def zero_loop.simps Bnum_pow_def pow_loop.simps Let_def

text \<open>
  Claim C2 says the product has the value \<open>value a * value b\<close>. \<open>Bnum_mult\<close> folds each
  partial product into the total with \<open>Bnum_sum\<close>, which drops a final carry. For
  \<open>(2^32 - 1)^2\<close> no carry is lost and the result is right; for
  \<open>(2^33 - 1) * (2^32 - 1)\<close> the second partial product \<open>[0, 2^32 - 1]\<close> added to the
  total \<open>[1, 2^32 - 2]\<close> carries out of the top block, and the result is short by \<open>2^64\<close>.
\<close>

theorem Bnum_mult_loses_carry:
  "blocks (Bnum_mult (Bnum_create 4294967295) (Bnum_create 4294967295)) = [1, 4294967294] \<and>
   Bnum_value (Bnum_mult (Bnum_create 4294967295) (Bnum_create 4294967295))
     = 4294967295 * 4294967295 \<and>
   blocks (Bnum_mult (Bnum_create 8589934591) (Bnum_create 4294967295)) = [1, 4294967293] \<and>
   Bnum_value (Bnum_mult (Bnum_create 8589934591) (Bnum_create 4294967295))
     = 18446744060824649729 \<and>
   Bnum_value (Bnum_create 8589934591) * Bnum_value (Bnum_create 4294967295)
     = 36893488134534201345"
  by (simp add: run_simps Bnum_value_def)

text \<open>
  Claim C3 says every big number that construction, addition, multiplication or
  exponentiation produces is canonical. Construction is (\<open>Bnum_create_canonical\<close>), but
  \<open>(2^32 - 1) + 1\<close> comes out as the single block \<open>[0]\<close> because the final carry is
  dropped, and \<open>2^32 * 0\<close> comes out as \<open>[0]\<close> because the partial product of the
  second block is its shift padding alone. Both operands are canonical in each case.
\<close>

theorem noncanonical_results:
  "canonical (Bnum_create 4294967295) \<and> canonical (Bnum_create 1) \<and>
   blocks (Bnum_sum (Bnum_create 4294967295) (Bnum_create 1)) = [0] \<and>
   \<not> canonical (Bnum_sum (Bnum_create 4294967295) (Bnum_create 1)) \<and>
   canonical (Bnum_create 4294967296) \<and> canonical (Bnum_create 0) \<and>
   blocks (Bnum_mult (Bnum_create 4294967296) (Bnum_create 0)) = [0] \<and>
   \<not> canonical (Bnum_mult (Bnum_create 4294967296) (Bnum_create 0))"
  by (simp add: Bnum_create_canonical) (simp add: run_simps canonical_def)

text \<open>
  Claim C7 says \<open>power a (m + n)\<close> and \<open>multiply (power a m) (power a n)\<close> are equal.
  With \<open>a = 2642246\<close>, \<open>m = 1\<close>, \<open>n = 2\<close>: \<open>Bnum_pow a 3\<close> multiplies the two-block
  \<open>a^2\<close> by \<open>a\<close> and loses the carry out of the second block in \<open>Bnum_sum\<close>, giving
  \<open>a^3 - 2^64\<close>; \<open>Bnum_mult (Bnum_pow a 1) (Bnum_pow a 2)\<close> multiplies the one-block \<open>a\<close>
  by \<open>a^2\<close> in a single partial product and gives \<open>a^3\<close>.
\<close>

theorem Bnum_pow_add_differs:
  "blocks (Bnum_pow (Bnum_create 2642246) (1 + 2)) = [2720163800, 245] \<and>
   blocks (Bnum_mult (Bnum_pow (Bnum_create 2642246) 1) (Bnum_pow (Bnum_create 2642246) 2))
     = [2720163800, 245, 1] \<and>
   \<not> Bnum_eq (Bnum_pow (Bnum_create 2642246) (1 + 2))
        (Bnum_mult (Bnum_pow (Bnum_create 2642246) 1) (Bnum_pow (Bnum_create 2642246) 2)) \<and>
   Bnum_value (Bnum_pow (Bnum_create 2642246) (1 + 2)) = 1054987151320 \<and>
   Bnum_value
     (Bnum_mult (Bnum_pow (Bnum_create 2642246) 1) (Bnum_pow (Bnum_create 2642246) 2))
     = 2642246 * 2642246 * 2642246"
  by (simp add: run_simps Bnum_value_def Bnum_eq_def)

section \<open>Chains: basic facts\<close>

lemma heap_ok_iff:
  "heap_ok s \<longleftrightarrow>
     (\<forall>p c. fmlookup (Blocks s) p = Some c \<longrightarrow> 0 < p \<and> p \<le> brk s) \<and>
     (\<forall>p c. fmlookup (Bnums s) p = Some c \<longrightarrow> 0 < p \<and> p \<le> brk s)"
  unfolding heap_ok_def by (auto simp add: fmlookup_dom'_iff)

lemma fwd_length: "fwd s p ps vs \<Longrightarrow> length ps = length vs"
  by (induction s p ps vs rule: fwd.induct) (auto split: option.splits)

lemma bwd_length: "bwd s p ps vs \<Longrightarrow> length ps = length vs"
  by (induction s p ps vs rule: bwd.induct) (auto split: option.splits)

lemma fwd_allocated: "fwd s p ps vs \<Longrightarrow> q \<in> set ps \<Longrightarrow> \<exists>c. fmlookup (Blocks s) q = Some c"
  by (induction s p ps vs rule: fwd.induct) (auto split: option.splits)

lemma fwd_NULL: "fwd s p ps vs \<Longrightarrow> p = NULL \<longleftrightarrow> ps = []"
  by (induction s p ps vs rule: fwd.induct) auto

lemma bwd_NULL: "bwd s p ps vs \<Longrightarrow> p = NULL \<longleftrightarrow> ps = []"
  by (induction s p ps vs rule: bwd.induct) auto

lemma fwd_same:
  "fwd s p ps vs \<Longrightarrow> \<forall>q \<in> set ps. fmlookup (Blocks s') q = fmlookup (Blocks s) q
     \<Longrightarrow> fwd s' p ps vs"
  by (induction s p ps vs rule: fwd.induct) (auto split: option.splits)

lemma bwd_same_val_prev:
  "bwd s p ps vs \<Longrightarrow>
   \<forall>q \<in> set ps. \<forall>c. fmlookup (Blocks s) q = Some c \<longrightarrow>
      (\<exists>c'. fmlookup (Blocks s') q = Some c' \<and> val c' = val c \<and> prev_block c' = prev_block c)
   \<Longrightarrow> bwd s' p ps vs"
proof (induction s p ps vs rule: bwd.induct)
  case (2 s p q qs v vs)
  from "2.prems"(1) obtain c where c: "fmlookup (Blocks s) q = Some c" "val c = v"
    "bwd s (prev_block c) qs vs" "p = q" "q \<noteq> NULL"
    by (auto split: option.splits)
  from "2.prems"(2) c(1) obtain c' where c': "fmlookup (Blocks s') q = Some c'"
    "val c' = val c" "prev_block c' = prev_block c"
    by auto
  have "bwd s' (prev_block c) qs vs"
    using "2.IH" [OF c(1) c(3)] "2.prems"(2) by simp
  with c c' show ?case
    by simp
qed simp_all

lemma bwd_same:
  "bwd s p ps vs \<Longrightarrow> \<forall>q \<in> set ps. fmlookup (Blocks s') q = fmlookup (Blocks s) q
     \<Longrightarrow> bwd s' p ps vs"
  by (erule bwd_same_val_prev) simp

lemma fwd_snoc:
  assumes "fwd s p ps vs" and "ps \<noteq> []" and "distinct ps" and "n \<notin> set ps" and "n \<noteq> NULL"
    and new: "\<exists>c. fmlookup (Blocks s') n = Some c \<and> val c = v \<and> next_block c = NULL"
    and top: "\<forall>c. fmlookup (Blocks s) (last ps) = Some c \<longrightarrow>
                fmlookup (Blocks s') (last ps) = Some (c\<lparr>next_block := n\<rparr>)"
    and rest: "\<forall>q \<in> set (butlast ps). fmlookup (Blocks s') q = fmlookup (Blocks s) q"
  shows "fwd s' p (ps @ [n]) (vs @ [v])"
  using assms(1-4) top rest
proof (induction s p ps vs rule: fwd.induct)
  case (2 s p q qs w ws)
  from "2.prems"(1) obtain c where c: "fmlookup (Blocks s) q = Some c" "val c = w"
    "fwd s (next_block c) qs ws" "p = q" "q \<noteq> NULL"
    by (auto split: option.splits)
  show ?case
  proof (cases "qs = []")
    case True
    with c(3) have "ws = []" and "next_block c = NULL"
      using fwd_length [OF c(3)] fwd_NULL [OF c(3)] by simp_all
    moreover from "2.prems"(5) c(1) True
    have "fmlookup (Blocks s') q = Some (c\<lparr>next_block := n\<rparr>)"
      by simp
    ultimately show ?thesis
      using True c new \<open>n \<noteq> NULL\<close> by auto
  next
    case False
    with "2.prems" have "fmlookup (Blocks s') q = fmlookup (Blocks s) q"
      by simp
    moreover have "fwd s' (next_block c) (qs @ [n]) (ws @ [v])"
      using "2.IH" [OF c(1) c(3)] False "2.prems" by simp
    ultimately show ?thesis
      using c by simp
  qed
qed simp_all

section \<open>Appending a block\<close>

lemma c_add_block_result:
  assumes "a \<noteq> NULL" and "fmlookup (Bnums s) a = Some A"
    and "least_significant A \<noteq> NULL \<Longrightarrow>
           most_significant A \<noteq> NULL \<and> most_significant A \<noteq> Suc (brk s) \<and>
           fmlookup (Blocks s) (most_significant A) = Some M"
  shows "\<exists>s'. c_add_block a v s = Some s' \<and> brk s' = Suc (brk s) \<and>
     (\<forall>q. fmlookup (Blocks s') q =
        (if q = Suc (brk s)
         then Some \<lparr>val = v, next_block = NULL,
                     prev_block = (if least_significant A = NULL then NULL
                                   else most_significant A)\<rparr>
         else if least_significant A \<noteq> NULL \<and> q = most_significant A
         then Some (M\<lparr>next_block := Suc (brk s)\<rparr>)
         else fmlookup (Blocks s) q)) \<and>
     (\<forall>q. fmlookup (Bnums s') q =
        (if q = a
         then Some (A\<lparr>least_significant :=
                        (if least_significant A = NULL then Suc (brk s)
                         else least_significant A),
                      most_significant := Suc (brk s),
                      struct_num_blocks := struct_num_blocks A + 1\<rparr>)
         else fmlookup (Bnums s) q))"
proof (cases "least_significant A = NULL")
  case True
  then show ?thesis
    using assms(1,2)
    by (simp add: c_add_block_def malloc_Block_def store_Block_def load_Bnum_def store_Bnum_def)
next
  case False
  with assms(3) have "most_significant A \<noteq> NULL" "most_significant A \<noteq> Suc (brk s)"
    "fmlookup (Blocks s) (most_significant A) = Some M"
    by simp_all
  with False show ?thesis
    using assms(1,2)
    by (simp add: c_add_block_def malloc_Block_def store_Block_def load_Bnum_def store_Bnum_def
        load_Block_def)
qed

lemma bwd_last:
  "bwd s p (rev ps) (rev vs) \<Longrightarrow> ps \<noteq> [] \<Longrightarrow>
     p = last ps \<and> p \<noteq> NULL \<and> (\<exists>c. fmlookup (Blocks s) p = Some c)"
  by (cases ps rule: rev_cases; cases vs rule: rev_cases) (auto split: option.splits)

lemma chain_below_brk:
  "heap_ok s \<Longrightarrow> fwd s p ps vs \<Longrightarrow> q \<in> set ps \<Longrightarrow> 0 < q \<and> q \<le> brk s"
  using fwd_allocated [of s p ps vs q] by (auto simp add: heap_ok_iff)

lemma c_add_block_spec:
  assumes ok: "heap_ok s" and at: "bnum_at s a ps x"
  shows "\<exists>s'. c_add_block a v s = Some s' \<and> heap_ok s' \<and> brk s' = Suc (brk s) \<and>
     bnum_at s' a (ps @ [Suc (brk s)]) (add_block x v) \<and>
     (\<forall>q. q \<noteq> a \<longrightarrow> fmlookup (Bnums s') q = fmlookup (Bnums s) q) \<and>
     (\<forall>q. q \<notin> set ps \<longrightarrow> q \<noteq> Suc (brk s) \<longrightarrow>
          fmlookup (Blocks s') q = fmlookup (Blocks s) q)"
proof -
  let ?n = "Suc (brk s)"
  from at obtain A where a: "a \<noteq> NULL" and d: "distinct ps"
    and A: "fmlookup (Bnums s) a = Some A"
    and cnt: "struct_num_blocks A = num_blocks x"
    and f: "fwd s (least_significant A) ps (blocks x)"
    and b: "bwd s (most_significant A) (rev ps) (rev (blocks x))"
    by (auto simp add: bnum_at_def split: option.splits)
  have fresh: "?n \<notin> set ps"
    using chain_below_brk [OF ok f, of ?n] by auto
  show ?thesis
  proof (cases "ps = []")
    case True
    then have l: "least_significant A = NULL" and vs: "blocks x = []"
      using fwd_NULL [OF f] fwd_length [OF f] by simp_all
    from c_add_block_result [OF a A, of undefined v] l
    obtain s' where s': "c_add_block a v s = Some s'" "brk s' = ?n"
      and B: "\<And>q. fmlookup (Blocks s') q =
            (if q = ?n then Some \<lparr>val = v, next_block = NULL, prev_block = NULL\<rparr>
             else fmlookup (Blocks s) q)"
      and N: "\<And>q. fmlookup (Bnums s') q =
            (if q = a then Some (A\<lparr>least_significant := ?n, most_significant := ?n,
                                    struct_num_blocks := struct_num_blocks A + 1\<rparr>)
             else fmlookup (Bnums s) q)"
      by auto
    have "heap_ok s'"
      using ok A by (auto simp add: heap_ok_iff B N s'(2) split: if_splits)
    moreover have "bnum_at s' a (ps @ [?n]) (add_block x v)"
      using a True vs cnt by (simp add: bnum_at_def N B add_block_def)
    ultimately show ?thesis
      using s' B N by auto
  next
    case False
    then have l: "least_significant A \<noteq> NULL"
      using fwd_NULL [OF f] by simp
    from bwd_last [OF b False] obtain M where m: "most_significant A = last ps"
      "most_significant A \<noteq> NULL" and M: "fmlookup (Blocks s) (most_significant A) = Some M"
      by auto
    have mn: "most_significant A \<noteq> ?n"
      using fresh False m(1) by (metis last_in_set)
    from c_add_block_result [OF a A, of M v] l m(2) mn M
    obtain s' where s': "c_add_block a v s = Some s'" "brk s' = ?n"
      and B: "\<And>q. fmlookup (Blocks s') q =
            (if q = ?n
             then Some \<lparr>val = v, next_block = NULL, prev_block = most_significant A\<rparr>
             else if q = most_significant A then Some (M\<lparr>next_block := ?n\<rparr>)
             else fmlookup (Blocks s) q)"
      and N: "\<And>q. fmlookup (Bnums s') q =
            (if q = a then Some (A\<lparr>least_significant := least_significant A,
                                    most_significant := ?n,
                                    struct_num_blocks := struct_num_blocks A + 1\<rparr>)
             else fmlookup (Bnums s) q)"
      by auto
    have "heap_ok s'"
      using ok A M by (auto simp add: heap_ok_iff B N s'(2) split: if_splits)
    moreover have ff: "fwd s' (least_significant A) (ps @ [?n]) (blocks x @ [v])"
    proof (rule fwd_snoc [OF f False d fresh])
      show "?n \<noteq> NULL" by simp
      show "\<exists>c. fmlookup (Blocks s') ?n = Some c \<and> val c = v \<and> next_block c = NULL"
        by (simp add: B)
      show "\<forall>c. fmlookup (Blocks s) (last ps) = Some c \<longrightarrow>
              fmlookup (Blocks s') (last ps) = Some (c\<lparr>next_block := ?n\<rparr>)"
        using M mn by (simp add: B m(1) [symmetric])
      show "\<forall>q \<in> set (butlast ps). fmlookup (Blocks s') q = fmlookup (Blocks s) q"
      proof
        fix q assume q: "q \<in> set (butlast ps)"
        then have "q \<in> set ps"
          by (rule in_set_butlastD)
        with fresh have "q \<noteq> ?n"
          by auto
        moreover have "q \<noteq> last ps"
          using q d False by (metis append_butlast_last_id distinct_butlast not_distinct_conv_prefix
              distinct_append disjoint_iff list.set_intros(1))
        ultimately show "fmlookup (Blocks s') q = fmlookup (Blocks s) q"
          by (simp add: B m(1))
      qed
    qed
    moreover have "bwd s' (most_significant A) (rev ps) (rev (blocks x))"
    proof (rule bwd_same_val_prev [OF b], intro ballI allI impI)
      fix q c assume q: "q \<in> set (rev ps)" and c: "fmlookup (Blocks s) q = Some c"
      from q fresh have "q \<noteq> ?n"
        by auto
      then show "\<exists>c'. fmlookup (Blocks s') q = Some c' \<and> val c' = val c \<and>
                  prev_block c' = prev_block c"
        using c M by (auto simp add: B)
    qed
    then have "bwd s' ?n (rev (ps @ [?n])) (rev (blocks x @ [v]))"
      using m(2) by (simp add: B)
    ultimately have "heap_ok s'" and "bnum_at s' a (ps @ [?n]) (add_block x v)"
      using a d fresh cnt by (simp_all add: bnum_at_def N add_block_def)
    then show ?thesis
      using s' B N m(1) False by auto
  qed
qed

section \<open>Construction on the store\<close>

lemma bnum_at_same:
  assumes "bnum_at s a ps x"
    and "fmlookup (Bnums s') a = fmlookup (Bnums s) a"
    and "\<forall>q \<in> set ps. fmlookup (Blocks s') q = fmlookup (Blocks s) q"
  shows "bnum_at s' a ps x"
  using assms
  by (auto simp add: bnum_at_def split: option.splits intro: fwd_same bwd_same)

lemma bnum_at_below_brk:
  assumes "heap_ok s" and "bnum_at s a ps x"
  shows "0 < a \<and> a \<le> brk s \<and> (\<forall>q \<in> set ps. 0 < q \<and> q \<le> brk s)"
proof -
  from assms(2) obtain A where A: "fmlookup (Bnums s) a = Some A"
    and f: "fwd s (least_significant A) ps (blocks x)"
    by (auto simp add: bnum_at_def split: option.splits)
  from A assms(1) have "0 < a \<and> a \<le> brk s"
    by (simp add: heap_ok_iff)
  moreover have "\<forall>q \<in> set ps. 0 < q \<and> q \<le> brk s"
    using chain_below_brk [OF assms(1) f] by blast
  ultimately show ?thesis
    by simp
qed

lemma bnum_at_unchanged:
  assumes "heap_ok s" and "bnum_at s a ps x" and "unchanged (brk s) s s'"
  shows "bnum_at s' a ps x"
proof (rule bnum_at_same [OF assms(2)])
  from bnum_at_below_brk [OF assms(1,2)] assms(3)
  show "fmlookup (Bnums s') a = fmlookup (Bnums s) a"
    and "\<forall>q \<in> set ps. fmlookup (Blocks s') q = fmlookup (Blocks s) q"
    by (simp_all add: unchanged_def)
qed

text \<open>
  A loop that builds a big number appends blocks to the number under construction,
  whose blocks lie above a level \<open>b\<close>, and leaves every block at or below \<open>b\<close> and
  every other \<open>Bnum\<close> struct as it was.
\<close>

lemma c_create_loop_spec:
  assumes "heap_ok s" and "bnum_at s a ps x" and "b < a" and "\<forall>q \<in> set ps. b < q"
    and "b \<le> brk s"
  shows "\<exists>s' ps'. c_create_loop num a s = Some s' \<and> heap_ok s' \<and> brk s \<le> brk s' \<and>
     bnum_at s' a ps' (create_loop num x) \<and> (\<forall>q \<in> set ps'. b < q) \<and>
     (\<forall>q. q \<noteq> a \<longrightarrow> fmlookup (Bnums s') q = fmlookup (Bnums s) q) \<and>
     (\<forall>q \<le> b. fmlookup (Blocks s') q = fmlookup (Blocks s) q)"
  using assms
proof (induction num x arbitrary: s ps rule: create_loop.induct)
  case (1 num x)
  show ?case
  proof (cases "num > 0")
    case False
    have "c_create_loop num a s = Some s"
      using False by (subst c_create_loop.simps) simp
    moreover have "create_loop num x = x"
      using False by (subst create_loop.simps) simp
    ultimately show ?thesis
      using "1.prems"(1,2,4) by (intro exI [of _ s] exI [of _ ps]) simp
  next
    case True
    from c_add_block_spec [OF "1.prems"(1,2), of "low_block num"]
    obtain s1 where s1: "c_add_block a (low_block num) s = Some s1" "heap_ok s1"
      "brk s1 = Suc (brk s)"
      "bnum_at s1 a (ps @ [Suc (brk s)]) (add_block x (low_block num))"
      and N1: "\<And>q. q \<noteq> a \<Longrightarrow> fmlookup (Bnums s1) q = fmlookup (Bnums s) q"
      and B1: "\<And>q. q \<notin> set ps \<Longrightarrow> q \<noteq> Suc (brk s) \<Longrightarrow>
                 fmlookup (Blocks s1) q = fmlookup (Blocks s) q"
      by blast
    have above: "\<forall>q \<in> set (ps @ [Suc (brk s)]). b < q"
      using "1.prems"(4,5) by auto
    have "b \<le> brk s1"
      using "1.prems"(5) s1(3) by simp
    from "1.IH" [OF True s1(2) s1(4) "1.prems"(3) above this]
    obtain s' ps' where s': "c_create_loop (drop_bit BLOCK_SIZE num) a s1 = Some s'"
      "heap_ok s'" "brk s1 \<le> brk s'"
      "bnum_at s' a ps' (create_loop (drop_bit BLOCK_SIZE num) (add_block x (low_block num)))"
      "\<forall>q \<in> set ps'. b < q"
      and N': "\<And>q. q \<noteq> a \<Longrightarrow> fmlookup (Bnums s') q = fmlookup (Bnums s1) q"
      and B': "\<And>q. q \<le> b \<Longrightarrow> fmlookup (Blocks s') q = fmlookup (Blocks s1) q"
      by blast
    have run: "c_create_loop num a s = Some s'"
      using True s1(1) s'(1) by (subst c_create_loop.simps) simp
    have abs: "create_loop num x
        = create_loop (drop_bit BLOCK_SIZE num) (add_block x (low_block num))"
      using True by (subst create_loop.simps) simp
    have B: "\<forall>q \<le> b. fmlookup (Blocks s') q = fmlookup (Blocks s) q"
    proof (intro allI impI)
      fix q assume q: "q \<le> b"
      then have "q \<notin> set ps" and "q \<noteq> Suc (brk s)"
        using "1.prems"(4,5) by auto
      then show "fmlookup (Blocks s') q = fmlookup (Blocks s) q"
        using B' [OF q] B1 by simp
    qed
    have N: "\<forall>q. q \<noteq> a \<longrightarrow> fmlookup (Bnums s') q = fmlookup (Bnums s) q"
      using N' N1 by simp
    have "brk s \<le> brk s'"
      using s'(3) s1(3) by simp
    with run s'(2,4,5) B N show ?thesis
      unfolding abs by blast
  qed
qed

lemma c_Bnum_create_spec:
  assumes "heap_ok s"
  shows "\<exists>r rs s'. c_Bnum_create num s = Some (r, s') \<and> heap_ok s' \<and> brk s \<le> brk s' \<and>
     brk s < r \<and> (\<forall>q \<in> set rs. brk s < q) \<and> bnum_at s' r rs (Bnum_create num) \<and>
     unchanged (brk s) s s'"
proof -
  let ?r = "Suc (brk s)"
  let ?c = "\<lparr>struct_num_blocks = 0, least_significant = NULL, most_significant = NULL\<rparr>"
  define s1 where "s1 = (snd (malloc_Bnum s))\<lparr>Bnums := fmupd ?r ?c (Bnums (snd (malloc_Bnum s)))\<rparr>"
  have brk1: "brk s1 = ?r" and B1: "Blocks s1 = Blocks s"
    and N1: "\<And>q. fmlookup (Bnums s1) q = (if q = ?r then Some ?c else fmlookup (Bnums s) q)"
    by (simp_all add: s1_def malloc_Bnum_def)
  have ok1: "heap_ok s1"
    using assms by (auto simp add: heap_ok_iff brk1 B1 N1 split: if_splits)
  have at1: "bnum_at s1 ?r [] empty_Bnum"
    by (simp add: bnum_at_def empty_Bnum_def N1)
  have start: "c_Bnum_create num s =
      (if num = 0 then Some (?r, s1)
       else Option.bind (c_create_loop num ?r s1) (\<lambda>s'. Some (?r, s')))"
    by (simp add: c_Bnum_create_def malloc_Bnum_def store_Bnum_def s1_def)
  have un1: "unchanged (brk s) s s1"
    by (simp add: unchanged_def B1 N1)
  show ?thesis
  proof (cases "num = 0")
    case True
    have "c_Bnum_create num s = Some (?r, s1)"
      using True start by simp
    moreover have "bnum_at s1 ?r [] (Bnum_create num)"
      using True at1 by (simp add: Bnum_create_def)
    ultimately show ?thesis
      using ok1 un1 brk1 by (intro exI [of _ ?r] exI [of _ "[]"] exI [of _ s1]) simp
  next
    case False
    have "brk s \<le> brk s1"
      by (simp add: brk1)
    from c_create_loop_spec [OF ok1 at1 _ _ this, of num]
    obtain s' ps' where s': "c_create_loop num ?r s1 = Some s'" "heap_ok s'"
      "brk s1 \<le> brk s'" "bnum_at s' ?r ps' (create_loop num empty_Bnum)"
      "\<forall>q \<in> set ps'. brk s < q"
      and N': "\<forall>q. q \<noteq> ?r \<longrightarrow> fmlookup (Bnums s') q = fmlookup (Bnums s1) q"
      and B': "\<forall>q \<le> brk s. fmlookup (Blocks s') q = fmlookup (Blocks s1) q"
      by auto
    have "unchanged (brk s) s s'"
      using N' B' by (simp add: unchanged_def B1 N1)
    moreover have "c_Bnum_create num s = Some (?r, s')"
      using False start s'(1) by simp
    moreover have "bnum_at s' ?r ps' (Bnum_create num)"
      using False s'(4) by (simp add: Bnum_create_def)
    ultimately show ?thesis
      using s'(2,3,5) brk1 by (intro exI [of _ ?r] exI [of _ ps'] exI [of _ s']) simp
  qed
qed

section \<open>Comparisons on the store\<close>

lemma fwd_Cons_load:
  "fwd s p (q # qs) (v # vs) \<Longrightarrow>
     p \<noteq> NULL \<and> (\<exists>c. load_Block p s = Some c \<and> val c = v \<and> fwd s (next_block c) qs vs)"
  by (auto simp add: load_Block_def split: option.splits)

lemma bwd_Cons_load:
  "bwd s p (q # qs) (v # vs) \<Longrightarrow>
     p \<noteq> NULL \<and> (\<exists>c. load_Block p s = Some c \<and> val c = v \<and> bwd s (prev_block c) qs vs)"
  by (auto simp add: load_Block_def split: option.splits)

lemma c_eq_loop_spec:
  "fwd s ca as xs \<Longrightarrow> fwd s cb bs ys \<Longrightarrow> c_eq_loop ca cb s = Some (eq_loop xs ys, s)"
proof (induction xs ys arbitrary: ca cb as bs rule: eq_loop_induct)
  case (both x xs y ys)
  from both.prems(1) obtain a as' where as: "as = a # as'"
    using fwd_length [OF both.prems(1)] by (cases as) auto
  from both.prems(2) obtain b bs' where bs: "bs = b # bs'"
    using fwd_length [OF both.prems(2)] by (cases bs) auto
  from fwd_Cons_load [OF both.prems(1) [unfolded as]]
  obtain c where c: "ca \<noteq> NULL" "load_Block ca s = Some c" "val c = x"
    "fwd s (next_block c) as' xs"
    by blast
  from fwd_Cons_load [OF both.prems(2) [unfolded bs]]
  obtain d where d: "cb \<noteq> NULL" "load_Block cb s = Some d" "val d = y"
    "fwd s (next_block d) bs' ys"
    by blast
  show ?case
  proof (cases "x = y")
    case True
    then have "c_eq_loop (next_block c) (next_block d) s = Some (eq_loop xs ys, s)"
      using both.IH [OF _ c(4) d(4)] by simp
    then show ?thesis
      using True c d by (subst c_eq_loop.simps) simp
  next
    case False
    then show ?thesis
      using c d by (subst c_eq_loop.simps) simp
  qed
next
  case (first_empty ys)
  then have "as = []" and "ca = NULL"
    using fwd_length [of s ca as "[]"] fwd_NULL [of s ca as "[]"] by simp_all
  moreover have "cb = NULL \<longleftrightarrow> ys = []"
    using fwd_NULL [OF first_empty.prems(2)] fwd_length [OF first_empty.prems(2)] by auto
  ultimately show ?case
    by (subst c_eq_loop.simps) simp
next
  case (second_empty xs)
  then have "bs = []" and "cb = NULL"
    using fwd_length [of s cb bs "[]"] fwd_NULL [of s cb bs "[]"] by simp_all
  moreover have "ca = NULL \<longleftrightarrow> xs = []"
    using fwd_NULL [OF second_empty.prems(1)] fwd_length [OF second_empty.prems(1)] by auto
  ultimately show ?case
    by (subst c_eq_loop.simps) simp
qed

lemma c_le_loop_spec:
  "bwd s ca as xs \<Longrightarrow> bwd s cb bs ys \<Longrightarrow> c_le_loop ca cb s = Some (le_loop xs ys, s)"
proof (induction xs ys arbitrary: ca cb as bs rule: le_loop_induct)
  case (both x xs y ys)
  from both.prems(1) obtain a as' where as: "as = a # as'"
    using bwd_length [OF both.prems(1)] by (cases as) auto
  from both.prems(2) obtain b bs' where bs: "bs = b # bs'"
    using bwd_length [OF both.prems(2)] by (cases bs) auto
  from bwd_Cons_load [OF both.prems(1) [unfolded as]]
  obtain c where c: "ca \<noteq> NULL" "load_Block ca s = Some c" "val c = x"
    "bwd s (prev_block c) as' xs"
    by blast
  from bwd_Cons_load [OF both.prems(2) [unfolded bs]]
  obtain d where d: "cb \<noteq> NULL" "load_Block cb s = Some d" "val d = y"
    "bwd s (prev_block d) bs' ys"
    by blast
  show ?case
  proof (cases "x = y")
    case True
    then have "c_le_loop (prev_block c) (prev_block d) s = Some (le_loop xs ys, s)"
      using both.IH [OF _ c(4) d(4)] by simp
    then show ?thesis
      using True c d by (subst c_le_loop.simps) simp
  next
    case False
    then show ?thesis
      using c d by (subst c_le_loop.simps) simp
  qed
next
  case (first_empty ys)
  then have "ca = NULL"
    using bwd_length [of s ca as "[]"] bwd_NULL [of s ca as "[]"] by simp
  then show ?case
    by (subst c_le_loop.simps) simp
next
  case (second_empty v va)
  then have "cb = NULL"
    using bwd_length [of s cb bs "[]"] bwd_NULL [of s cb bs "[]"] by simp
  then show ?case
    by (subst c_le_loop.simps) simp
qed

lemma c_ge_loop_spec:
  "bwd s ca as xs \<Longrightarrow> bwd s cb bs ys \<Longrightarrow> c_ge_loop ca cb s = Some (ge_loop xs ys, s)"
proof (induction xs ys arbitrary: ca cb as bs rule: ge_loop_induct)
  case (both x xs y ys)
  from both.prems(1) obtain a as' where as: "as = a # as'"
    using bwd_length [OF both.prems(1)] by (cases as) auto
  from both.prems(2) obtain b bs' where bs: "bs = b # bs'"
    using bwd_length [OF both.prems(2)] by (cases bs) auto
  from bwd_Cons_load [OF both.prems(1) [unfolded as]]
  obtain c where c: "ca \<noteq> NULL" "load_Block ca s = Some c" "val c = x"
    "bwd s (prev_block c) as' xs"
    by blast
  from bwd_Cons_load [OF both.prems(2) [unfolded bs]]
  obtain d where d: "cb \<noteq> NULL" "load_Block cb s = Some d" "val d = y"
    "bwd s (prev_block d) bs' ys"
    by blast
  show ?case
  proof (cases "x = y")
    case True
    then have "c_ge_loop (prev_block c) (prev_block d) s = Some (ge_loop xs ys, s)"
      using both.IH [OF _ c(4) d(4)] by simp
    then show ?thesis
      using True c d by (subst c_ge_loop.simps) simp
  next
    case False
    then show ?thesis
      using c d by (subst c_ge_loop.simps) simp
  qed
next
  case (first_empty ys)
  then have "ca = NULL"
    using bwd_length [of s ca as "[]"] bwd_NULL [of s ca as "[]"] by simp
  then show ?case
    by (subst c_ge_loop.simps) simp
next
  case (second_empty v va)
  then have "cb = NULL"
    using bwd_length [of s cb bs "[]"] bwd_NULL [of s cb bs "[]"] by simp
  then show ?case
    by (subst c_ge_loop.simps) simp
qed

lemma bnum_at_load:
  "bnum_at s a ps x \<Longrightarrow>
     \<exists>A. load_Bnum a s = Some A \<and> struct_num_blocks A = num_blocks x \<and>
         fwd s (least_significant A) ps (blocks x) \<and>
         bwd s (most_significant A) (rev ps) (rev (blocks x))"
  by (auto simp add: bnum_at_def load_Bnum_def split: option.splits)

lemma c_Bnum_eq_spec:
  assumes "bnum_at s a as x" and "bnum_at s b bs y"
  shows "c_Bnum_eq a b s = Some (Bnum_eq x y, s)"
proof -
  from bnum_at_load [OF assms(1)] obtain A where A: "load_Bnum a s = Some A"
    "fwd s (least_significant A) as (blocks x)"
    by blast
  from bnum_at_load [OF assms(2)] obtain B where B: "load_Bnum b s = Some B"
    "fwd s (least_significant B) bs (blocks y)"
    by blast
  show ?thesis
    using A(1) B(1) c_eq_loop_spec [OF A(2) B(2)] by (simp add: c_Bnum_eq_def Bnum_eq_def)
qed

lemma c_Bnum_ne_spec:
  assumes "bnum_at s a as x" and "bnum_at s b bs y"
  shows "c_Bnum_ne a b s = Some (Bnum_ne x y, s)"
  using c_Bnum_eq_spec [OF assms] by (simp add: c_Bnum_ne_def Bnum_ne_def)

lemma c_Bnum_le_spec:
  assumes "bnum_at s a as x" and "bnum_at s b bs y"
  shows "c_Bnum_le a b s = Some (Bnum_le x y, s)"
proof -
  from bnum_at_load [OF assms(1)] obtain A where A: "load_Bnum a s = Some A"
    "struct_num_blocks A = num_blocks x"
    "bwd s (most_significant A) (rev as) (rev (blocks x))"
    by blast
  from bnum_at_load [OF assms(2)] obtain B where B: "load_Bnum b s = Some B"
    "struct_num_blocks B = num_blocks y"
    "bwd s (most_significant B) (rev bs) (rev (blocks y))"
    by blast
  show ?thesis
    using A(1,2) B(1,2) c_le_loop_spec [OF A(3) B(3)] by (simp add: c_Bnum_le_def Bnum_le_def)
qed

lemma c_Bnum_ge_spec:
  assumes "bnum_at s a as x" and "bnum_at s b bs y"
  shows "c_Bnum_ge a b s = Some (Bnum_ge x y, s)"
proof -
  from bnum_at_load [OF assms(1)] obtain A where A: "load_Bnum a s = Some A"
    "struct_num_blocks A = num_blocks x"
    "bwd s (most_significant A) (rev as) (rev (blocks x))"
    by blast
  from bnum_at_load [OF assms(2)] obtain B where B: "load_Bnum b s = Some B"
    "struct_num_blocks B = num_blocks y"
    "bwd s (most_significant B) (rev bs) (rev (blocks y))"
    by blast
  show ?thesis
    using A(1,2) B(1,2) c_ge_loop_spec [OF A(3) B(3)] by (simp add: c_Bnum_ge_def Bnum_ge_def)
qed

lemma c_Bnum_lt_spec:
  assumes "bnum_at s a as x" and "bnum_at s b bs y"
  shows "c_Bnum_lt a b s = Some (Bnum_lt x y, s)"
  using c_Bnum_ge_spec [OF assms] by (simp add: c_Bnum_lt_def Bnum_lt_def)

lemma c_Bnum_gt_spec:
  assumes "bnum_at s a as x" and "bnum_at s b bs y"
  shows "c_Bnum_gt a b s = Some (Bnum_gt x y, s)"
  using c_Bnum_le_spec [OF assms] by (simp add: c_Bnum_gt_def Bnum_gt_def)

section \<open>Addition on the store\<close>

text \<open>
  In the loops that build a result, the operands' blocks lie at addresses up to a level
  \<open>b\<close> and the number under construction lies above it.
\<close>

lemma load_Block_same:
  "fmlookup (Blocks s') p = fmlookup (Blocks s) p \<Longrightarrow> load_Block p s' = load_Block p s"
  by (simp add: load_Block_def)

lemma c_sum_rest_spec:
  assumes "heap_ok s" and "bnum_at s acc ps z" and "\<forall>q \<in> set ps. b < q" and "b \<le> brk s"
    and "fwd s cur cs xs" and "\<forall>q \<in> set cs. q \<le> b"
  shows "\<exists>s' ps'. c_sum_rest cur carry acc s = Some s' \<and> heap_ok s' \<and> brk s \<le> brk s' \<and>
     bnum_at s' acc ps' (sum_rest xs carry z) \<and> (\<forall>q \<in> set ps'. b < q) \<and>
     (\<forall>q. q \<noteq> acc \<longrightarrow> fmlookup (Bnums s') q = fmlookup (Bnums s) q) \<and>
     (\<forall>q \<le> b. fmlookup (Blocks s') q = fmlookup (Blocks s) q)"
  using assms
proof (induction xs carry z arbitrary: s ps cur cs rule: sum_rest.induct)
  case (1 x xs carry z)
  let ?block_sum = "(ucast x :: uint64) + carry"
  from "1.prems"(5) obtain c0 cs' where cs: "cs = c0 # cs'"
    using fwd_length [OF "1.prems"(5)] by (cases cs) auto
  from fwd_Cons_load [OF "1.prems"(5) [unfolded cs]]
  obtain c where c: "cur \<noteq> NULL" "load_Block cur s = Some c" "val c = x"
    "fwd s (next_block c) cs' xs"
    by blast
  have cur: "cur = c0"
    using "1.prems"(5) cs by simp
  from c_add_block_spec [OF "1.prems"(1,2), of "low_block ?block_sum"]
  obtain s1 where s1: "c_add_block acc (low_block ?block_sum) s = Some s1" "heap_ok s1"
    "brk s1 = Suc (brk s)"
    "bnum_at s1 acc (ps @ [Suc (brk s)]) (add_block z (low_block ?block_sum))"
    and N1: "\<And>q. q \<noteq> acc \<Longrightarrow> fmlookup (Bnums s1) q = fmlookup (Bnums s) q"
    and B1: "\<And>q. q \<notin> set ps \<Longrightarrow> q \<noteq> Suc (brk s) \<Longrightarrow>
               fmlookup (Blocks s1) q = fmlookup (Blocks s) q"
    by blast
  have low: "\<And>q. q \<le> b \<Longrightarrow> fmlookup (Blocks s1) q = fmlookup (Blocks s) q"
  proof -
    fix q assume "q \<le> b"
    then have "q \<notin> set ps" and "q \<noteq> Suc (brk s)"
      using "1.prems"(3,4) by auto
    then show "fmlookup (Blocks s1) q = fmlookup (Blocks s) q"
      by (rule B1)
  qed
  have "cur \<le> b"
    using "1.prems"(6) cs cur by simp
  then have c1: "load_Block cur s1 = Some c"
    using c(2) load_Block_same [OF low] by simp
  have f1: "fwd s1 (next_block c) cs' xs"
    using c(4) "1.prems"(6) cs low by (intro fwd_same [OF c(4)]) simp
  have above: "\<forall>q \<in> set (ps @ [Suc (brk s)]). b < q"
    using "1.prems"(3,4) by auto
  have "b \<le> brk s1"
    using "1.prems"(4) s1(3) by simp
  from "1.IH" [OF refl s1(2) s1(4) above this f1] "1.prems"(6) cs
  obtain s' ps' where s': "c_sum_rest (next_block c) (drop_bit BLOCK_SIZE ?block_sum) acc s1
        = Some s'"
    "heap_ok s'" "brk s1 \<le> brk s'"
    "bnum_at s' acc ps' (sum_rest xs (drop_bit BLOCK_SIZE ?block_sum)
        (add_block z (low_block ?block_sum)))"
    "\<forall>q \<in> set ps'. b < q"
    and N': "\<And>q. q \<noteq> acc \<Longrightarrow> fmlookup (Bnums s') q = fmlookup (Bnums s1) q"
    and B': "\<And>q. q \<le> b \<Longrightarrow> fmlookup (Blocks s') q = fmlookup (Blocks s1) q"
    by auto
  have run: "c_sum_rest cur carry acc s = Some s'"
    using c(1,2,3) s1(1) c1 s'(1) by (subst c_sum_rest.simps) (simp add: Let_def)
  have "brk s \<le> brk s'"
    using s'(3) s1(3) by simp
  moreover have "\<forall>q. q \<noteq> acc \<longrightarrow> fmlookup (Bnums s') q = fmlookup (Bnums s) q"
    using N' N1 by simp
  moreover have "\<forall>q \<le> b. fmlookup (Blocks s') q = fmlookup (Blocks s) q"
    using B' low by simp
  ultimately show ?case
    using run s'(2,4,5) by (simp add: Let_def) blast
next
  case (2 carry z)
  then have "cur = NULL"
    using fwd_length [of s cur cs "[]"] fwd_NULL [of s cur cs "[]"] by simp
  then have "c_sum_rest cur carry acc s = Some s"
    by (subst c_sum_rest.simps) simp
  then show ?case
    using "2.prems"(1,2,3) by (intro exI [of _ s] exI [of _ ps]) simp
qed

lemma c_sum_loops_spec:
  assumes "heap_ok s" and "bnum_at s acc ps z" and "\<forall>q \<in> set ps. b < q" and "b \<le> brk s"
    and "fwd s ca as xs" and "\<forall>q \<in> set as. q \<le> b"
    and "fwd s cb bs ys" and "\<forall>q \<in> set bs. q \<le> b"
  shows "\<exists>s' ps'.
     Option.bind (c_sum_both ca cb carry acc s)
       (\<lambda>(cur_block_a, cur_block_b, carry, s).
          c_sum_rest (if cur_block_a \<noteq> NULL then cur_block_a else cur_block_b) carry acc s)
       = Some s' \<and>
     heap_ok s' \<and> brk s \<le> brk s' \<and>
     bnum_at s' acc ps'
       (case sum_both xs ys carry z of
          (cur_block_a, cur_block_b, carry, sum_bn) \<Rightarrow>
            sum_rest (if cur_block_a \<noteq> [] then cur_block_a else cur_block_b) carry sum_bn) \<and>
     (\<forall>q \<in> set ps'. b < q) \<and>
     (\<forall>q. q \<noteq> acc \<longrightarrow> fmlookup (Bnums s') q = fmlookup (Bnums s) q) \<and>
     (\<forall>q \<le> b. fmlookup (Blocks s') q = fmlookup (Blocks s) q)"
  using assms
proof (induction xs ys carry z arbitrary: s ps ca cb as bs rule: sum_both_induct)
  case (both x xs y ys carry z)
  let ?block_sum = "(ucast x :: uint64) + (ucast y :: uint64) + carry"
  from both.prems(5) obtain a0 as' where as: "as = a0 # as'"
    using fwd_length [OF both.prems(5)] by (cases as) auto
  from both.prems(7) obtain b0 bs' where bs: "bs = b0 # bs'"
    using fwd_length [OF both.prems(7)] by (cases bs) auto
  from fwd_Cons_load [OF both.prems(5) [unfolded as]]
  obtain c where c: "ca \<noteq> NULL" "load_Block ca s = Some c" "val c = x"
    "fwd s (next_block c) as' xs"
    by blast
  from fwd_Cons_load [OF both.prems(7) [unfolded bs]]
  obtain d where d: "cb \<noteq> NULL" "load_Block cb s = Some d" "val d = y"
    "fwd s (next_block d) bs' ys"
    by blast
  have ca: "ca = a0" and cb: "cb = b0"
    using both.prems(5,7) as bs by simp_all
  from c_add_block_spec [OF both.prems(1,2), of "low_block ?block_sum"]
  obtain s1 where s1: "c_add_block acc (low_block ?block_sum) s = Some s1" "heap_ok s1"
    "brk s1 = Suc (brk s)"
    "bnum_at s1 acc (ps @ [Suc (brk s)]) (add_block z (low_block ?block_sum))"
    and N1: "\<And>q. q \<noteq> acc \<Longrightarrow> fmlookup (Bnums s1) q = fmlookup (Bnums s) q"
    and B1: "\<And>q. q \<notin> set ps \<Longrightarrow> q \<noteq> Suc (brk s) \<Longrightarrow>
               fmlookup (Blocks s1) q = fmlookup (Blocks s) q"
    by blast
  have low: "\<And>q. q \<le> b \<Longrightarrow> fmlookup (Blocks s1) q = fmlookup (Blocks s) q"
  proof -
    fix q assume "q \<le> b"
    then have "q \<notin> set ps" and "q \<noteq> Suc (brk s)"
      using both.prems(3,4) by auto
    then show "fmlookup (Blocks s1) q = fmlookup (Blocks s) q"
      by (rule B1)
  qed
  have "ca \<le> b" and "cb \<le> b"
    using both.prems(6,8) as bs ca cb by simp_all
  then have c1: "load_Block ca s1 = Some c" and d1: "load_Block cb s1 = Some d"
    using c(2) d(2) load_Block_same [OF low] by simp_all
  have fa: "fwd s1 (next_block c) as' xs"
    using both.prems(6) as low by (intro fwd_same [OF c(4)]) simp
  have fb: "fwd s1 (next_block d) bs' ys"
    using both.prems(8) bs low by (intro fwd_same [OF d(4)]) simp
  have above: "\<forall>q \<in> set (ps @ [Suc (brk s)]). b < q"
    using both.prems(3,4) by auto
  have lev: "b \<le> brk s1"
    using both.prems(4) s1(3) by simp
  have as': "\<forall>q \<in> set as'. q \<le> b" and bs': "\<forall>q \<in> set bs'. q \<le> b"
    using both.prems(6,8) as bs by simp_all
  from both.IH [OF refl s1(2) s1(4) above lev fa as' fb bs']
  obtain s' ps' where s': "Option.bind
        (c_sum_both (next_block c) (next_block d) (drop_bit BLOCK_SIZE ?block_sum) acc s1)
        (\<lambda>(cur_block_a, cur_block_b, carry, s).
           c_sum_rest (if cur_block_a \<noteq> NULL then cur_block_a else cur_block_b) carry acc s)
        = Some s'"
    "heap_ok s'" "brk s1 \<le> brk s'"
    "bnum_at s' acc ps'
       (case sum_both xs ys (drop_bit BLOCK_SIZE ?block_sum)
               (add_block z (low_block ?block_sum)) of
          (cur_block_a, cur_block_b, carry, sum_bn) \<Rightarrow>
            sum_rest (if cur_block_a \<noteq> [] then cur_block_a else cur_block_b) carry sum_bn)"
    "\<forall>q \<in> set ps'. b < q"
    and N': "\<And>q. q \<noteq> acc \<Longrightarrow> fmlookup (Bnums s') q = fmlookup (Bnums s1) q"
    and B': "\<And>q. q \<le> b \<Longrightarrow> fmlookup (Blocks s') q = fmlookup (Blocks s1) q"
    by auto
  have step: "c_sum_both ca cb carry acc s =
      c_sum_both (next_block c) (next_block d) (drop_bit BLOCK_SIZE ?block_sum) acc s1"
    using c(1,2,3) d(1,2,3) s1(1) c1 d1 by (subst c_sum_both.simps) (simp add: Let_def)
  have "brk s \<le> brk s'"
    using s'(3) s1(3) by simp
  moreover have "\<forall>q. q \<noteq> acc \<longrightarrow> fmlookup (Bnums s') q = fmlookup (Bnums s) q"
    using N' N1 by simp
  moreover have "\<forall>q \<le> b. fmlookup (Blocks s') q = fmlookup (Blocks s) q"
    using B' low by simp
  ultimately show ?case
    using s'(1,2,4,5) unfolding step by (simp add: Let_def) blast
next
  case (first_empty ys carry z)
  then have "ca = NULL"
    using fwd_length [of s ca as "[]"] fwd_NULL [of s ca as "[]"] by simp
  then have "c_sum_both ca cb carry acc s = Some (NULL, cb, carry, s)"
    by (subst c_sum_both.simps) simp
  then show ?case
    using c_sum_rest_spec [OF first_empty.prems(1,2,3,4,7,8), of carry] by simp
next
  case (second_empty xs carry z)
  then have "cb = NULL"
    using fwd_length [of s cb bs "[]"] fwd_NULL [of s cb bs "[]"] by simp
  then have "c_sum_both ca cb carry acc s = Some (ca, NULL, carry, s)"
    by (subst c_sum_both.simps) simp
  moreover have "(if ca \<noteq> NULL then ca else NULL) = ca"
    by simp
  moreover have "(if xs \<noteq> [] then xs else []) = xs"
    by simp
  ultimately show ?case
    using c_sum_rest_spec [OF second_empty.prems(1,2,3,4,5,6), of carry] by simp
qed

lemma bnum_at_empty_chain: "bnum_at s a ps x \<Longrightarrow> blocks x = [] \<Longrightarrow> ps = []"
  using fwd_length by (fastforce simp add: bnum_at_def split: option.splits)

lemma c_Bnum_sum_spec:
  assumes "heap_ok s" and "bnum_at s a as x" and "bnum_at s b bs y"
  shows "\<exists>r rs s'. c_Bnum_sum a b s = Some (r, s') \<and> heap_ok s' \<and> brk s \<le> brk s' \<and>
     brk s < r \<and> (\<forall>q \<in> set rs. brk s < q) \<and> bnum_at s' r rs (Bnum_sum x y) \<and>
     unchanged (brk s) s s'"
proof -
  from c_Bnum_create_spec [OF assms(1), of 0]
  obtain r rs0 s1 where s1: "c_Bnum_create 0 s = Some (r, s1)" "heap_ok s1" "brk s \<le> brk s1"
    "brk s < r" "bnum_at s1 r rs0 (Bnum_create 0)" "unchanged (brk s) s s1"
    by blast
  have "rs0 = []"
    using bnum_at_empty_chain [OF s1(5)] by (simp add: Bnum_create_0 empty_Bnum_def)
  with s1(5) have acc: "bnum_at s1 r [] (Bnum_create 0)"
    by simp
  have a1: "bnum_at s1 a as x" and b1: "bnum_at s1 b bs y"
    using bnum_at_unchanged [OF assms(1) _ s1(6)] assms(2,3) by simp_all
  from bnum_at_load [OF a1] obtain A where A: "load_Bnum a s1 = Some A"
    "fwd s1 (least_significant A) as (blocks x)"
    by blast
  from bnum_at_load [OF b1] obtain B where B: "load_Bnum b s1 = Some B"
    "fwd s1 (least_significant B) bs (blocks y)"
    by blast
  have la: "\<forall>q \<in> set as. q \<le> brk s" and lb: "\<forall>q \<in> set bs. q \<le> brk s"
    using bnum_at_below_brk [OF assms(1,2)] bnum_at_below_brk [OF assms(1,3)] by simp_all
  from c_sum_loops_spec [OF s1(2) acc _ s1(3) A(2) la B(2) lb, of 0]
  obtain s' rs where s': "Option.bind
        (c_sum_both (least_significant A) (least_significant B) 0 r s1)
        (\<lambda>(cur_block_a, cur_block_b, carry, s).
           c_sum_rest (if cur_block_a \<noteq> NULL then cur_block_a else cur_block_b) carry r s)
        = Some s'"
    "heap_ok s'" "brk s1 \<le> brk s'" "bnum_at s' r rs (Bnum_sum x y)"
    "\<forall>q \<in> set rs. brk s < q"
    and N': "\<And>q. q \<noteq> r \<Longrightarrow> fmlookup (Bnums s') q = fmlookup (Bnums s1) q"
    and B': "\<And>q. q \<le> brk s \<Longrightarrow> fmlookup (Blocks s') q = fmlookup (Blocks s1) q"
    by (auto simp add: Bnum_sum_def)
  have run: "c_Bnum_sum a b s = Some (r, s')"
    using s1(1) A(1) B(1) s'(1)
    by (auto simp add: c_Bnum_sum_def split: bind_splits prod.splits)
  have "unchanged (brk s) s s'"
    using s1(6) N' B' s1(4) by (simp add: unchanged_def)
  moreover have "brk s \<le> brk s'"
    using s1(3) s'(3) by simp
  ultimately show ?thesis
    using run s'(2,4,5) s1(4) by blast
qed

section \<open>Levels\<close>

lemma unchanged_refl: "unchanged b s s"
  by (simp add: unchanged_def)

lemma unchanged_trans: "unchanged b s s1 \<Longrightarrow> unchanged b s1 s2 \<Longrightarrow> unchanged b s s2"
  by (simp add: unchanged_def)

lemma unchanged_mono: "unchanged b' s s' \<Longrightarrow> b \<le> b' \<Longrightarrow> unchanged b s s'"
  by (simp add: unchanged_def)

lemma unchangedI:
  assumes "\<And>q. q \<le> b \<Longrightarrow> fmlookup (Blocks s') q = fmlookup (Blocks s) q"
    and "\<And>q. q \<le> b \<Longrightarrow> fmlookup (Bnums s') q = fmlookup (Bnums s) q"
  shows "unchanged b s s'"
  using assms by (simp add: unchanged_def)

lemma fwd_unchanged:
  "fwd s p ps vs \<Longrightarrow> \<forall>q \<in> set ps. q \<le> b \<Longrightarrow> unchanged b s s' \<Longrightarrow> fwd s' p ps vs"
  by (erule fwd_same) (simp add: unchanged_def)

lemma bnum_at_level:
  "bnum_at s a ps x \<Longrightarrow> a \<le> b \<Longrightarrow> \<forall>q \<in> set ps. q \<le> b \<Longrightarrow> unchanged b s s'
     \<Longrightarrow> bnum_at s' a ps x"
  by (erule bnum_at_same) (simp_all add: unchanged_def)

lemma load_Block_unchanged:
  "unchanged b s s' \<Longrightarrow> p \<le> b \<Longrightarrow> load_Block p s' = load_Block p s"
  by (simp add: unchanged_def load_Block_def)

section \<open>Releasing a big number\<close>

lemma destroy_loop_spec:
  "fwd s cur cs vs \<Longrightarrow> distinct cs \<Longrightarrow>
     \<exists>s'. destroy_loop cur s = Some s' \<and> brk s' = brk s \<and> Bnums s' = Bnums s \<and>
       (\<forall>q. fmlookup (Blocks s') q = (if q \<in> set cs then None else fmlookup (Blocks s) q))"
proof (induction cs arbitrary: cur vs s)
  case Nil
  then have "cur = NULL"
    using fwd_NULL [OF Nil.prems(1)] by simp
  then have "destroy_loop cur s = Some s"
    by (subst destroy_loop.simps) simp
  then show ?case
    by simp
next
  case (Cons c0 cs)
  from Cons.prems(1) obtain v vs' where vs: "vs = v # vs'"
    using fwd_length [OF Cons.prems(1)] by (cases vs) auto
  from fwd_Cons_load [OF Cons.prems(1) [unfolded vs]]
  obtain c where c: "cur \<noteq> NULL" "load_Block cur s = Some c" "fwd s (next_block c) cs vs'"
    by blast
  have cur: "cur = c0"
    using Cons.prems(1) vs by simp
  let ?s1 = "s\<lparr>Blocks := fmdrop cur (Blocks s)\<rparr>"
  have free: "free_Block cur s = Some ?s1"
    using c(1,2) by (simp add: free_Block_def load_Block_def)
  have "fwd ?s1 (next_block c) cs vs'"
    using Cons.prems(2) cur by (intro fwd_same [OF c(3)]) auto
  from Cons.IH [OF this] Cons.prems(2)
  obtain s' where s': "destroy_loop (next_block c) ?s1 = Some s'" "brk s' = brk s"
    "Bnums s' = Bnums s"
    and B': "\<And>q. fmlookup (Blocks s') q = (if q \<in> set cs then None else fmlookup (Blocks ?s1) q)"
    by auto
  have "destroy_loop cur s = Some s'"
    using c(1,2) free s'(1) by (subst destroy_loop.simps) simp
  moreover have "\<forall>q. fmlookup (Blocks s') q
      = (if q \<in> set (c0 # cs) then None else fmlookup (Blocks s) q)"
    using cur by (simp add: B')
  ultimately show ?case
    using s'(2,3) by blast
qed

lemma c_Bnum_destroy_spec:
  assumes "bnum_at s p ps x"
  shows "\<exists>s'. c_Bnum_destroy p s = Some s' \<and> brk s' = brk s \<and>
     (\<forall>q. fmlookup (Blocks s') q = (if q \<in> set ps then None else fmlookup (Blocks s) q)) \<and>
     (\<forall>q. fmlookup (Bnums s') q = (if q = p then None else fmlookup (Bnums s) q))"
proof -
  from bnum_at_load [OF assms] obtain A where A: "load_Bnum p s = Some A"
    "fwd s (least_significant A) ps (blocks x)"
    by blast
  have d: "distinct ps" and p: "p \<noteq> NULL"
    using assms by (simp_all add: bnum_at_def)
  from destroy_loop_spec [OF A(2) d]
  obtain s1 where s1: "destroy_loop (least_significant A) s = Some s1" "brk s1 = brk s"
    "Bnums s1 = Bnums s"
    and B1: "\<And>q. fmlookup (Blocks s1) q = (if q \<in> set ps then None else fmlookup (Blocks s) q)"
    by blast
  have "fmlookup (Bnums s1) p \<noteq> None"
    using A(1) p s1(3) by (simp add: load_Bnum_def)
  then have "free_Bnum p s1 = Some (s1\<lparr>Bnums := fmdrop p (Bnums s1)\<rparr>)"
    using p by (simp add: free_Bnum_def)
  then have "c_Bnum_destroy p s = Some (s1\<lparr>Bnums := fmdrop p (Bnums s1)\<rparr>)"
    using A(1) s1(1) by (simp add: c_Bnum_destroy_def)
  then show ?thesis
    using s1(2,3) B1 by auto
qed

lemma heap_ok_shrink:
  assumes "heap_ok s" and "brk s \<le> brk s'"
    and "\<And>q c. fmlookup (Blocks s') q = Some c \<Longrightarrow> fmlookup (Blocks s) q = Some c"
    and "\<And>q c. fmlookup (Bnums s') q = Some c \<Longrightarrow> fmlookup (Bnums s) q = Some c"
  shows "heap_ok s'"
proof -
  have "0 < p \<and> p \<le> brk s'" if "fmlookup (Blocks s') p = Some c" for p c
    using assms(1,2) assms(3) [OF that] by (auto simp add: heap_ok_iff)
  moreover have "0 < p \<and> p \<le> brk s'" if "fmlookup (Bnums s') p = Some c" for p c
    using assms(1,2) assms(4) [OF that] by (auto simp add: heap_ok_iff)
  ultimately show ?thesis
    unfolding heap_ok_iff by blast
qed

text \<open>Releasing a number that lies above the level \<open>b\<close>.\<close>

lemma c_Bnum_destroy_above:
  assumes "heap_ok s" and "bnum_at s p ps x" and "b < p" and "\<forall>q \<in> set ps. b < q"
  shows "\<exists>s'. c_Bnum_destroy p s = Some s' \<and> heap_ok s' \<and> brk s' = brk s \<and>
     unchanged b s s' \<and>
     (\<forall>q. fmlookup (Blocks s') q = (if q \<in> set ps then None else fmlookup (Blocks s) q)) \<and>
     (\<forall>q. fmlookup (Bnums s') q = (if q = p then None else fmlookup (Bnums s) q))"
proof -
  from c_Bnum_destroy_spec [OF assms(2)]
  obtain s' where s': "c_Bnum_destroy p s = Some s'" "brk s' = brk s"
    and B: "\<And>q. fmlookup (Blocks s') q = (if q \<in> set ps then None else fmlookup (Blocks s) q)"
    and N: "\<And>q. fmlookup (Bnums s') q = (if q = p then None else fmlookup (Bnums s) q)"
    by blast
  have "brk s \<le> brk s'"
    using s'(2) by simp
  with assms(1) have "heap_ok s'"
    by (rule heap_ok_shrink) (auto simp add: B N split: if_splits)
  moreover have "unchanged b s s'"
    using assms(3,4) by (intro unchangedI) (auto simp add: B N)
  ultimately show ?thesis
    using s' B N by blast
qed

section \<open>Multiplication on the store\<close>

lemma c_zero_loop_spec:
  assumes "heap_ok s" and "bnum_at s acc ps z" and "\<forall>q \<in> set ps. b < q" and "b \<le> brk s"
  shows "\<exists>s' ps'. c_zero_loop i shift acc s = Some s' \<and> heap_ok s' \<and> brk s \<le> brk s' \<and>
     bnum_at s' acc ps' (zero_loop i shift z) \<and> (\<forall>q \<in> set ps'. b < q) \<and>
     (\<forall>q. q \<noteq> acc \<longrightarrow> fmlookup (Bnums s') q = fmlookup (Bnums s) q) \<and>
     (\<forall>q \<le> b. fmlookup (Blocks s') q = fmlookup (Blocks s) q)"
  using assms
proof (induction i shift z arbitrary: s ps rule: zero_loop.induct)
  case (1 i shift z)
  show ?case
  proof (cases "i < shift")
    case False
    have "c_zero_loop i shift acc s = Some s"
      using False by (subst c_zero_loop.simps) simp
    moreover have "zero_loop i shift z = z"
      using False by (subst zero_loop.simps) simp
    ultimately show ?thesis
      using "1.prems"(1,2,3) by (intro exI [of _ s] exI [of _ ps]) simp
  next
    case True
    from c_add_block_spec [OF "1.prems"(1,2), of 0]
    obtain s1 where s1: "c_add_block acc 0 s = Some s1" "heap_ok s1"
      "brk s1 = Suc (brk s)" "bnum_at s1 acc (ps @ [Suc (brk s)]) (add_block z 0)"
      and N1: "\<And>q. q \<noteq> acc \<Longrightarrow> fmlookup (Bnums s1) q = fmlookup (Bnums s) q"
      and B1: "\<And>q. q \<notin> set ps \<Longrightarrow> q \<noteq> Suc (brk s) \<Longrightarrow>
                 fmlookup (Blocks s1) q = fmlookup (Blocks s) q"
      by blast
    have above: "\<forall>q \<in> set (ps @ [Suc (brk s)]). b < q"
      using "1.prems"(3,4) by auto
    have "b \<le> brk s1"
      using "1.prems"(4) s1(3) by simp
    from "1.IH" [OF True s1(2) s1(4) above this]
    obtain s' ps' where s': "c_zero_loop (i + 1) shift acc s1 = Some s'"
      "heap_ok s'" "brk s1 \<le> brk s'"
      "bnum_at s' acc ps' (zero_loop (i + 1) shift (add_block z 0))"
      "\<forall>q \<in> set ps'. b < q"
      and N': "\<And>q. q \<noteq> acc \<Longrightarrow> fmlookup (Bnums s') q = fmlookup (Bnums s1) q"
      and B': "\<And>q. q \<le> b \<Longrightarrow> fmlookup (Blocks s') q = fmlookup (Blocks s1) q"
      by blast
    have run: "c_zero_loop i shift acc s = Some s'"
      using True s1(1) s'(1) by (subst c_zero_loop.simps) simp
    have abs: "zero_loop i shift z = zero_loop (i + 1) shift (add_block z 0)"
      using True by (subst zero_loop.simps) simp
    have B: "\<forall>q \<le> b. fmlookup (Blocks s') q = fmlookup (Blocks s) q"
    proof (intro allI impI)
      fix q assume q: "q \<le> b"
      then have "q \<notin> set ps" and "q \<noteq> Suc (brk s)"
        using "1.prems"(3,4) by auto
      then show "fmlookup (Blocks s') q = fmlookup (Blocks s) q"
        using B' [OF q] B1 by simp
    qed
    have N: "\<forall>q. q \<noteq> acc \<longrightarrow> fmlookup (Bnums s') q = fmlookup (Bnums s) q"
      using N' N1 by simp
    have "brk s \<le> brk s'"
      using s'(3) s1(3) by simp
    with run s'(2,4,5) B N show ?thesis
      unfolding abs by blast
  qed
qed

lemma c_mult_block_spec:
  assumes "heap_ok s" and "bnum_at s acc ps z" and "\<forall>q \<in> set ps. b < q" and "b \<le> brk s"
    and "load_Block cur_a s = Some c" and "val c = x" and "cur_a \<le> b"
    and "fwd s cur cs ys" and "\<forall>q \<in> set cs. q \<le> b"
  shows "\<exists>s' ps'. c_mult_block cur_a cur carry acc s = Some (fst (mult_block x ys carry z), s') \<and>
     heap_ok s' \<and> brk s \<le> brk s' \<and>
     bnum_at s' acc ps' (snd (mult_block x ys carry z)) \<and> (\<forall>q \<in> set ps'. b < q) \<and>
     (\<forall>q. q \<noteq> acc \<longrightarrow> fmlookup (Bnums s') q = fmlookup (Bnums s) q) \<and>
     (\<forall>q \<le> b. fmlookup (Blocks s') q = fmlookup (Blocks s) q)"
  using assms(1,2,3,4,5,6,8,9)
proof (induction x ys carry z arbitrary: s ps cur cs rule: mult_block.induct)
  case (1 x y ys carry z)
  let ?block_product = "(ucast x :: uint64) * (ucast y :: uint64) + carry"
  from "1.prems"(7) obtain c0 cs' where cs: "cs = c0 # cs'"
    using fwd_length [OF "1.prems"(7)] by (cases cs) auto
  from fwd_Cons_load [OF "1.prems"(7) [unfolded cs]]
  obtain d where d: "cur \<noteq> NULL" "load_Block cur s = Some d" "val d = y"
    "fwd s (next_block d) cs' ys"
    by blast
  have cur: "cur = c0"
    using "1.prems"(7) cs by simp
  from c_add_block_spec [OF "1.prems"(1,2), of "low_block ?block_product"]
  obtain s1 where s1: "c_add_block acc (low_block ?block_product) s = Some s1" "heap_ok s1"
    "brk s1 = Suc (brk s)"
    "bnum_at s1 acc (ps @ [Suc (brk s)]) (add_block z (low_block ?block_product))"
    and N1: "\<And>q. q \<noteq> acc \<Longrightarrow> fmlookup (Bnums s1) q = fmlookup (Bnums s) q"
    and B1: "\<And>q. q \<notin> set ps \<Longrightarrow> q \<noteq> Suc (brk s) \<Longrightarrow>
               fmlookup (Blocks s1) q = fmlookup (Blocks s) q"
    by blast
  have low: "\<And>q. q \<le> b \<Longrightarrow> fmlookup (Blocks s1) q = fmlookup (Blocks s) q"
  proof -
    fix q assume "q \<le> b"
    then have "q \<notin> set ps" and "q \<noteq> Suc (brk s)"
      using "1.prems"(3,4) by auto
    then show "fmlookup (Blocks s1) q = fmlookup (Blocks s) q"
      by (rule B1)
  qed
  have "cur \<le> b"
    using "1.prems"(8) cs cur by simp
  then have d1: "load_Block cur s1 = Some d"
    using d(2) load_Block_same [OF low] by simp
  have c1: "load_Block cur_a s1 = Some c"
    using "1.prems"(5) assms(7) load_Block_same [OF low] by simp
  have f1: "fwd s1 (next_block d) cs' ys"
    using "1.prems"(8) cs low by (intro fwd_same [OF d(4)]) simp
  have above: "\<forall>q \<in> set (ps @ [Suc (brk s)]). b < q"
    using "1.prems"(3,4) by auto
  have lev: "b \<le> brk s1"
    using "1.prems"(4) s1(3) by simp
  have cs': "\<forall>q \<in> set cs'. q \<le> b"
    using "1.prems"(8) cs by simp
  from "1.IH" [OF refl s1(2) s1(4) above lev c1 "1.prems"(6) f1 cs']
  obtain s' ps' where s': "c_mult_block cur_a (next_block d)
        (drop_bit BLOCK_SIZE ?block_product) acc s1
      = Some (fst (mult_block x ys (drop_bit BLOCK_SIZE ?block_product)
                (add_block z (low_block ?block_product))), s')"
    "heap_ok s'" "brk s1 \<le> brk s'"
    "bnum_at s' acc ps' (snd (mult_block x ys (drop_bit BLOCK_SIZE ?block_product)
        (add_block z (low_block ?block_product))))"
    "\<forall>q \<in> set ps'. b < q"
    and N': "\<And>q. q \<noteq> acc \<Longrightarrow> fmlookup (Bnums s') q = fmlookup (Bnums s1) q"
    and B': "\<And>q. q \<le> b \<Longrightarrow> fmlookup (Blocks s') q = fmlookup (Blocks s1) q"
    by blast
  have run: "c_mult_block cur_a cur carry acc s
      = Some (fst (mult_block x (y # ys) carry z), s')"
    using d(1,2,3) "1.prems"(5,6) s1(1) d1 s'(1)
    by (subst c_mult_block.simps) (simp add: Let_def)
  have "brk s \<le> brk s'"
    using s'(3) s1(3) by simp
  moreover have "\<forall>q. q \<noteq> acc \<longrightarrow> fmlookup (Bnums s') q = fmlookup (Bnums s) q"
    using N' N1 by simp
  moreover have "\<forall>q \<le> b. fmlookup (Blocks s') q = fmlookup (Blocks s) q"
    using B' low by simp
  ultimately show ?case
    using run s'(2,4,5) by (simp add: Let_def) blast
next
  case (2 x carry z)
  then have "cur = NULL"
    using fwd_length [of s cur cs "[]"] fwd_NULL [of s cur cs "[]"] by simp
  then have "c_mult_block cur_a cur carry acc s = Some (carry, s)"
    by (subst c_mult_block.simps) simp
  then show ?case
    using "2.prems"(1,2,3) by (intro exI [of _ s] exI [of _ ps]) simp
qed

lemma unchanged_above:
  assumes "b < acc"
    and "\<forall>q. q \<noteq> acc \<longrightarrow> fmlookup (Bnums s') q = fmlookup (Bnums s) q"
    and "\<forall>q \<le> b. fmlookup (Blocks s') q = fmlookup (Blocks s) q"
  shows "unchanged b s s'"
  using assms by (intro unchangedI) auto

lemma c_mult_loop_spec:
  assumes "heap_ok s" and "b \<le> brk s"
    and "fwd s cur as xs" and "\<forall>q \<in> set as. q \<le> b"
    and "bnum_at s bp bs y" and "bp \<le> b" and "\<forall>q \<in> set bs. q \<le> b"
    and "bnum_at s pr ps z" and "b < pr" and "\<forall>q \<in> set ps. b < q"
  shows "\<exists>r rs s'. c_mult_loop cur bp shift pr s = Some (r, s') \<and> heap_ok s' \<and>
     brk s \<le> brk s' \<and> b < r \<and> (\<forall>q \<in> set rs. b < q) \<and>
     bnum_at s' r rs (mult_loop xs y shift z) \<and> unchanged b s s'"
  using assms
proof (induction xs y shift z arbitrary: s cur as pr ps rule: mult_loop.induct)
  case (2 y shift z)
  then have "cur = NULL"
    using fwd_length [of s cur as "[]"] fwd_NULL [of s cur as "[]"] by simp
  then have "c_mult_loop cur bp shift pr s = Some (pr, s)"
    by (subst c_mult_loop.simps) simp
  then show ?case
    using "2.prems"(1,8,9,10) unchanged_refl [of b s]
    by (intro exI [of _ pr] exI [of _ ps] exI [of _ s]) simp
next
  case (1 x xs y shift z)
  let ?L = "brk s"
  let ?M = "mult_block x (blocks y) 0 (zero_loop 0 shift (Bnum_create 0))"
  let ?cp = "if fst ?M \<noteq> 0 then add_block (snd ?M) (ucast (fst ?M)) else snd ?M"
  note ok = "1.prems"(1) and lev = "1.prems"(2) and fa = "1.prems"(3) and la = "1.prems"(4)
    and atb = "1.prems"(5) and lbp = "1.prems"(6) and lbs = "1.prems"(7)
    and atp = "1.prems"(8) and lp = "1.prems"(9) and lps = "1.prems"(10)
  have abs: "mult_loop (x # xs) y shift z = mult_loop xs y (shift + 1) (Bnum_sum z ?cp)"
    by (simp add: split_def Let_def)
  \<comment> \<open>the cursor in \<open>a\<close>\<close>
  from fa obtain a0 as' where as: "as = a0 # as'"
    using fwd_length [OF fa] by (cases as) auto
  from fwd_Cons_load [OF fa [unfolded as]]
  obtain c where c: "cur \<noteq> NULL" "load_Block cur s = Some c" "val c = x"
    "fwd s (next_block c) as' xs"
    by blast
  have curb: "cur \<le> b" and las': "\<forall>q \<in> set as'. q \<le> b"
    using fa la as by simp_all
  have pL: "pr \<le> ?L" and psL: "\<forall>q \<in> set ps. q \<le> ?L"
    using bnum_at_below_brk [OF ok atp] by simp_all
  \<comment> \<open>\<open>cur_product = Bnum_create(0)\<close>\<close>
  from c_Bnum_create_spec [OF ok, of 0]
  obtain cp rs0 s1 where s1: "c_Bnum_create 0 s = Some (cp, s1)" "heap_ok s1" "?L \<le> brk s1"
    "?L < cp" "bnum_at s1 cp rs0 (Bnum_create 0)" and un1: "unchanged ?L s s1"
    by blast
  have "rs0 = []"
    using bnum_at_empty_chain [OF s1(5)] by (simp add: Bnum_create_0 empty_Bnum_def)
  with s1(5) have cp1: "bnum_at s1 cp [] (Bnum_create 0)"
    by simp
  \<comment> \<open>the shift padding\<close>
  from c_zero_loop_spec [OF s1(2) cp1 _ s1(3), of 0 shift]
  obtain s2 ps2 where s2: "c_zero_loop 0 shift cp s1 = Some s2" "heap_ok s2"
    "brk s1 \<le> brk s2" "bnum_at s2 cp ps2 (zero_loop 0 shift (Bnum_create 0))"
    "\<forall>q \<in> set ps2. ?L < q"
    and N2: "\<forall>q. q \<noteq> cp \<longrightarrow> fmlookup (Bnums s2) q = fmlookup (Bnums s1) q"
    and B2: "\<forall>q \<le> ?L. fmlookup (Blocks s2) q = fmlookup (Blocks s1) q"
    by auto
  have un2: "unchanged ?L s s2"
    using un1 unchanged_above [OF s1(4) N2 B2] by (rule unchanged_trans)
  have L2: "?L \<le> brk s2"
    using s1(3) s2(3) by simp
  \<comment> \<open>one block of \<open>a\<close> times \<open>b\<close>\<close>
  have atb2: "bnum_at s2 bp bs y"
    using atb lbp lbs unchanged_mono [OF un2 lev] by (rule bnum_at_level)
  from bnum_at_load [OF atb2] obtain B where B: "load_Bnum bp s2 = Some B"
    "fwd s2 (least_significant B) bs (blocks y)"
    by blast
  have c2: "load_Block cur s2 = Some c"
    using c(2) load_Block_unchanged [OF unchanged_mono [OF un2 lev] curb] by simp
  have curL: "cur \<le> ?L" and bsL: "\<forall>q \<in> set bs. q \<le> ?L"
    using curb lbs lev by auto
  from c_mult_block_spec [OF s2(2) s2(4) s2(5) L2 c2 c(3) curL B(2) bsL, of 0]
  obtain s3 ps3 where s3: "c_mult_block cur (least_significant B) 0 cp s2 = Some (fst ?M, s3)"
    "heap_ok s3" "brk s2 \<le> brk s3" "bnum_at s3 cp ps3 (snd ?M)" "\<forall>q \<in> set ps3. ?L < q"
    and N3: "\<forall>q. q \<noteq> cp \<longrightarrow> fmlookup (Bnums s3) q = fmlookup (Bnums s2) q"
    and B3: "\<forall>q \<le> ?L. fmlookup (Blocks s3) q = fmlookup (Blocks s2) q"
    by blast
  have un3: "unchanged ?L s s3"
    using un2 unchanged_above [OF s1(4) N3 B3] by (rule unchanged_trans)
  have L3: "?L \<le> brk s3"
    using L2 s3(3) by simp
  \<comment> \<open>the carry block\<close>
  have "\<exists>s4 ps4. (if fst ?M \<noteq> 0 then c_add_block cp (ucast (fst ?M)) s3 else Some s3) = Some s4 \<and>
      heap_ok s4 \<and> brk s3 \<le> brk s4 \<and> bnum_at s4 cp ps4 ?cp \<and> (\<forall>q \<in> set ps4. ?L < q) \<and>
      unchanged ?L s3 s4"
  proof (cases "fst ?M \<noteq> 0")
    case False
    then show ?thesis
      using s3(2,4,5) unchanged_refl [of ?L s3] by (intro exI [of _ s3] exI [of _ ps3]) simp
  next
    case True
    from c_add_block_spec [OF s3(2) s3(4), of "ucast (fst ?M)"]
    obtain s4 where s4: "c_add_block cp (ucast (fst ?M)) s3 = Some s4" "heap_ok s4"
      "brk s4 = Suc (brk s3)"
      "bnum_at s4 cp (ps3 @ [Suc (brk s3)]) (add_block (snd ?M) (ucast (fst ?M)))"
      and N4: "\<forall>q. q \<noteq> cp \<longrightarrow> fmlookup (Bnums s4) q = fmlookup (Bnums s3) q"
      and B4: "\<forall>q. q \<notin> set ps3 \<longrightarrow> q \<noteq> Suc (brk s3) \<longrightarrow>
                 fmlookup (Blocks s4) q = fmlookup (Blocks s3) q"
      by blast
    have "\<forall>q \<le> ?L. fmlookup (Blocks s4) q = fmlookup (Blocks s3) q"
      using B4 s3(5) L3 by (metis Suc_n_not_le_n le_trans not_less)
    then have "unchanged ?L s3 s4"
      using unchanged_above [OF s1(4) N4] by simp
    moreover have "\<forall>q \<in> set (ps3 @ [Suc (brk s3)]). ?L < q"
      using s3(5) L3 by auto
    ultimately show ?thesis
      using True s4 by (intro exI [of _ s4] exI [of _ "ps3 @ [Suc (brk s3)]"]) simp
  qed
  then obtain s4 ps4 where s4:
    "(if fst ?M \<noteq> 0 then c_add_block cp (ucast (fst ?M)) s3 else Some s3) = Some s4"
    "heap_ok s4" "brk s3 \<le> brk s4" "bnum_at s4 cp ps4 ?cp" "\<forall>q \<in> set ps4. ?L < q"
    and un34: "unchanged ?L s3 s4"
    by blast
  have un4: "unchanged ?L s s4"
    using un3 un34 by (rule unchanged_trans)
  have L4: "?L \<le> brk s4"
    using L3 s4(3) by simp
  \<comment> \<open>\<open>product = Bnum_sum(temp, cur_product)\<close>\<close>
  have atp4: "bnum_at s4 pr ps z"
    using ok atp un4 by (rule bnum_at_unchanged)
  from c_Bnum_sum_spec [OF s4(2) atp4 s4(4)]
  obtain r rs s5 where s5: "c_Bnum_sum pr cp s4 = Some (r, s5)" "heap_ok s5"
    "brk s4 \<le> brk s5" "brk s4 < r" "\<forall>q \<in> set rs. brk s4 < q"
    "bnum_at s5 r rs (Bnum_sum z ?cp)" and un45: "unchanged (brk s4) s4 s5"
    by blast
  have cpL4: "cp \<le> brk s4" and ps4L4: "\<forall>q \<in> set ps4. q \<le> brk s4"
    using bnum_at_below_brk [OF s4(2) s4(4)] by simp_all
  \<comment> \<open>\<open>Bnum_destroy(temp)\<close>\<close>
  have atp5: "bnum_at s5 pr ps z"
    using s4(2) atp4 un45 by (rule bnum_at_unchanged)
  from c_Bnum_destroy_above [OF s5(2) atp5 lp lps]
  obtain s6 where s6: "c_Bnum_destroy pr s5 = Some s6" "heap_ok s6" "brk s6 = brk s5"
    and un56: "unchanged b s5 s6"
    and B6: "\<And>q. fmlookup (Blocks s6) q = (if q \<in> set ps then None else fmlookup (Blocks s5) q)"
    and N6: "\<And>q. fmlookup (Bnums s6) q = (if q = pr then None else fmlookup (Bnums s5) q)"
    by blast
  \<comment> \<open>\<open>Bnum_destroy(cur_product)\<close>\<close>
  have cp5: "bnum_at s5 cp ps4 ?cp"
    using s4(2) s4(4) un45 by (rule bnum_at_unchanged)
  have cp6: "bnum_at s6 cp ps4 ?cp"
  proof (rule bnum_at_same [OF cp5])
    show "fmlookup (Bnums s6) cp = fmlookup (Bnums s5) cp"
      using s1(4) pL by (simp add: N6)
    show "\<forall>q \<in> set ps4. fmlookup (Blocks s6) q = fmlookup (Blocks s5) q"
    proof
      fix q assume "q \<in> set ps4"
      with s4(5) have "?L < q"
        by simp
      with psL have "q \<notin> set ps"
        by (auto simp add: not_le [symmetric])
      then show "fmlookup (Blocks s6) q = fmlookup (Blocks s5) q"
        by (simp add: B6)
    qed
  qed
  have lcp: "b < cp" and lps4: "\<forall>q \<in> set ps4. b < q"
    using s1(4) s4(5) lev by auto
  from c_Bnum_destroy_above [OF s6(2) cp6 lcp lps4]
  obtain s7 where s7: "c_Bnum_destroy cp s6 = Some s7" "heap_ok s7" "brk s7 = brk s6"
    and un67: "unchanged b s6 s7"
    and B7: "\<And>q. fmlookup (Blocks s7) q = (if q \<in> set ps4 then None else fmlookup (Blocks s6) q)"
    and N7: "\<And>q. fmlookup (Bnums s7) q = (if q = cp then None else fmlookup (Bnums s6) q)"
    by blast
  \<comment> \<open>the new product survives both releases\<close>
  have r7: "bnum_at s7 r rs (Bnum_sum z ?cp)"
  proof (rule bnum_at_same [OF s5(6)])
    show "fmlookup (Bnums s7) r = fmlookup (Bnums s5) r"
      using s5(4) cpL4 pL L4 by (simp add: N7 N6)
    show "\<forall>q \<in> set rs. fmlookup (Blocks s7) q = fmlookup (Blocks s5) q"
    proof
      fix q assume "q \<in> set rs"
      with s5(5) have q: "brk s4 < q"
        by simp
      with ps4L4 have "q \<notin> set ps4"
        by (auto simp add: not_le [symmetric])
      moreover from q L4 psL have "q \<notin> set ps"
        by (auto simp add: not_le [symmetric])
      ultimately show "fmlookup (Blocks s7) q = fmlookup (Blocks s5) q"
        by (simp add: B7 B6)
    qed
  qed
  have un7: "unchanged b s s7"
  proof -
    have "unchanged b s s4"
      using un4 lev by (rule unchanged_mono)
    moreover have "unchanged b s4 s5"
      using un45 lev L4 by (intro unchanged_mono [OF un45]) simp
    ultimately show ?thesis
      using un56 un67 by (blast intro: unchanged_trans)
  qed
  have ok7: "heap_ok s7" by (rule s7(2))
  have L7: "b \<le> brk s7" and LL7: "?L \<le> brk s7"
    using s7(3) s6(3) s5(3) L4 lev by simp_all
  have c7: "load_Block cur s7 = Some c"
    using c(2) load_Block_unchanged [OF un7 curb] by simp
  have fa7: "fwd s7 (next_block c) as' xs"
    using c(4) las' un7 by (rule fwd_unchanged)
  have atb7: "bnum_at s7 bp bs y"
    using atb lbp lbs un7 by (rule bnum_at_level)
  have lr: "b < r" and lrs: "\<forall>q \<in> set rs. b < q"
    using s5(4,5) L4 lev by auto
  from "1.IH" [OF prod.collapse refl ok7 L7 fa7 las' atb7 lbp lbs r7 lr lrs]
  obtain r' rs' s' where s': "c_mult_loop (next_block c) bp (shift + 1) r s7 = Some (r', s')"
    "heap_ok s'" "brk s7 \<le> brk s'" "b < r'" "\<forall>q \<in> set rs'. b < q"
    "bnum_at s' r' rs' (mult_loop xs y (shift + 1) (Bnum_sum z ?cp))"
    and un': "unchanged b s7 s'"
    by blast
  have run: "c_mult_loop cur bp shift pr s = Some (r', s')"
    using c(1) s1(1) s2(1) B(1) s3(1) s4(1) s5(1) s6(1) s7(1) c7 s'(1)
    by (subst c_mult_loop.simps) simp
  have "unchanged b s s'"
    using un7 un' by (rule unchanged_trans)
  moreover have "brk s \<le> brk s'"
    using LL7 s'(3) by simp
  ultimately show ?case
    using run s'(2,4,5,6) unfolding abs by blast
qed

lemma c_Bnum_mult_spec:
  assumes "heap_ok s" and "bnum_at s a as x" and "bnum_at s b bs y"
  shows "\<exists>r rs s'. c_Bnum_mult a b s = Some (r, s') \<and> heap_ok s' \<and> brk s \<le> brk s' \<and>
     brk s < r \<and> (\<forall>q \<in> set rs. brk s < q) \<and> bnum_at s' r rs (Bnum_mult x y) \<and>
     unchanged (brk s) s s'"
proof -
  let ?L = "brk s"
  from c_Bnum_create_spec [OF assms(1), of 0]
  obtain pr rs0 s1 where s1: "c_Bnum_create 0 s = Some (pr, s1)" "heap_ok s1" "?L \<le> brk s1"
    "?L < pr" "bnum_at s1 pr rs0 (Bnum_create 0)" and un1: "unchanged ?L s s1"
    by blast
  have "rs0 = []"
    using bnum_at_empty_chain [OF s1(5)] by (simp add: Bnum_create_0 empty_Bnum_def)
  with s1(5) have pr1: "bnum_at s1 pr [] (Bnum_create 0)"
    by simp
  have a1: "bnum_at s1 a as x" and b1: "bnum_at s1 b bs y"
    using bnum_at_unchanged [OF assms(1) _ un1] assms(2,3) by simp_all
  from bnum_at_load [OF a1] obtain A where A: "load_Bnum a s1 = Some A"
    "fwd s1 (least_significant A) as (blocks x)"
    by blast
  have la: "\<forall>q \<in> set as. q \<le> ?L" and lb: "b \<le> ?L" and lbs: "\<forall>q \<in> set bs. q \<le> ?L"
    using bnum_at_below_brk [OF assms(1,2)] bnum_at_below_brk [OF assms(1,3)] by simp_all
  from c_mult_loop_spec [OF s1(2,3) A(2) la b1 lb lbs pr1 s1(4), of 0]
  obtain r rs s' where s': "c_mult_loop (least_significant A) b 0 pr s1 = Some (r, s')"
    "heap_ok s'" "brk s1 \<le> brk s'" "?L < r" "\<forall>q \<in> set rs. ?L < q"
    "bnum_at s' r rs (mult_loop (blocks x) y 0 (Bnum_create 0))"
    and un': "unchanged ?L s1 s'"
    by auto
  have "c_Bnum_mult a b s = Some (r, s')"
    using s1(1) A(1) s'(1) by (simp add: c_Bnum_mult_def)
  moreover have "unchanged ?L s s'"
    using un1 un' by (rule unchanged_trans)
  moreover have "?L \<le> brk s'"
    using s1(3) s'(3) by simp
  ultimately show ?thesis
    using s'(2,4,5,6) by (auto simp add: Bnum_mult_def)
qed

section \<open>Exponentiation on the store\<close>

lemma c_pow_loop_spec:
  assumes "heap_ok s" and "b \<le> brk s"
    and "bnum_at s a as x" and "a \<le> b" and "\<forall>q \<in> set as. q \<le> b"
    and "bnum_at s res ps z" and "b < res" and "\<forall>q \<in> set ps. b < q"
  shows "\<exists>r rs s'. c_pow_loop i n a res s = Some (r, s') \<and> heap_ok s' \<and> brk s \<le> brk s' \<and>
     b < r \<and> (\<forall>q \<in> set rs. b < q) \<and> bnum_at s' r rs (pow_loop i n x z) \<and>
     unchanged b s s'"
  using assms
proof (induction i n x z arbitrary: s res ps rule: pow_loop.induct)
  case (1 i n x z)
  note ok = "1.prems"(1) and lev = "1.prems"(2) and ata = "1.prems"(3) and la = "1.prems"(4)
    and las = "1.prems"(5) and atr = "1.prems"(6) and lr = "1.prems"(7) and lps = "1.prems"(8)
  show ?case
  proof (cases "i < n")
    case False
    have "c_pow_loop i n a res s = Some (res, s)"
      using False by (subst c_pow_loop.simps) simp
    moreover have "pow_loop i n x z = z"
      using False by (subst pow_loop.simps) simp
    ultimately show ?thesis
      using ok atr lr lps unchanged_refl [of b s]
      by (intro exI [of _ res] exI [of _ ps] exI [of _ s]) simp
  next
    case True
    let ?L = "brk s"
    have resL: "res \<le> ?L" and psL: "\<forall>q \<in> set ps. q \<le> ?L"
      using bnum_at_below_brk [OF ok atr] by simp_all
    from c_Bnum_mult_spec [OF ok atr ata]
    obtain r1 rs1 s1 where s1: "c_Bnum_mult res a s = Some (r1, s1)" "heap_ok s1"
      "?L \<le> brk s1" "?L < r1" "\<forall>q \<in> set rs1. ?L < q" "bnum_at s1 r1 rs1 (Bnum_mult z x)"
      and un1: "unchanged ?L s s1"
      by blast
    have atr1: "bnum_at s1 res ps z"
      using ok atr un1 by (rule bnum_at_unchanged)
    from c_Bnum_destroy_above [OF s1(2) atr1 lr lps]
    obtain s2 where s2: "c_Bnum_destroy res s1 = Some s2" "heap_ok s2" "brk s2 = brk s1"
      and un12: "unchanged b s1 s2"
      and B2: "\<And>q. fmlookup (Blocks s2) q
                 = (if q \<in> set ps then None else fmlookup (Blocks s1) q)"
      and N2: "\<And>q. fmlookup (Bnums s2) q = (if q = res then None else fmlookup (Bnums s1) q)"
      by blast
    have r2: "bnum_at s2 r1 rs1 (Bnum_mult z x)"
    proof (rule bnum_at_same [OF s1(6)])
      show "fmlookup (Bnums s2) r1 = fmlookup (Bnums s1) r1"
        using s1(4) resL by (simp add: N2)
      show "\<forall>q \<in> set rs1. fmlookup (Blocks s2) q = fmlookup (Blocks s1) q"
      proof
        fix q assume "q \<in> set rs1"
        with s1(5) have "?L < q"
          by simp
        with psL have "q \<notin> set ps"
          by (auto simp add: not_le [symmetric])
        then show "fmlookup (Blocks s2) q = fmlookup (Blocks s1) q"
          by (simp add: B2)
      qed
    qed
    have un2: "unchanged b s s2"
      using unchanged_mono [OF un1 lev] un12 by (rule unchanged_trans)
    have ata2: "bnum_at s2 a as x"
      using ata la las un2 by (rule bnum_at_level)
    have L2: "b \<le> brk s2" and LL2: "?L \<le> brk s2"
      using s2(3) s1(3) lev by simp_all
    have lr1: "b < r1" and lrs1: "\<forall>q \<in> set rs1. b < q"
      using s1(4,5) lev by auto
    from "1.IH" [OF True s2(2) L2 ata2 la las r2 lr1 lrs1]
    obtain r rs s' where s': "c_pow_loop (i + 1) n a r1 s2 = Some (r, s')" "heap_ok s'"
      "brk s2 \<le> brk s'" "b < r" "\<forall>q \<in> set rs. b < q"
      "bnum_at s' r rs (pow_loop (i + 1) n x (Bnum_mult z x))"
      and un': "unchanged b s2 s'"
      by blast
    have run: "c_pow_loop i n a res s = Some (r, s')"
      using True s1(1) s2(1) s'(1) by (subst c_pow_loop.simps) simp
    have abs: "pow_loop i n x z = pow_loop (i + 1) n x (Bnum_mult z x)"
      using True by (subst pow_loop.simps) simp
    have "unchanged b s s'"
      using un2 un' by (rule unchanged_trans)
    moreover have "?L \<le> brk s'"
      using LL2 s'(3) by simp
    ultimately show ?thesis
      using run s'(2,4,5,6) unfolding abs by blast
  qed
qed

lemma c_Bnum_pow_spec:
  assumes "heap_ok s" and "bnum_at s a as x"
  shows "\<exists>r rs s'. c_Bnum_pow a n s = Some (r, s') \<and> heap_ok s' \<and> brk s \<le> brk s' \<and>
     brk s < r \<and> (\<forall>q \<in> set rs. brk s < q) \<and> bnum_at s' r rs (Bnum_pow x n) \<and>
     unchanged (brk s) s s'"
proof -
  let ?L = "brk s"
  from c_Bnum_create_spec [OF assms(1), of 1]
  obtain res rs0 s1 where s1: "c_Bnum_create 1 s = Some (res, s1)" "heap_ok s1"
    "?L \<le> brk s1" "?L < res" "\<forall>q \<in> set rs0. ?L < q" "bnum_at s1 res rs0 (Bnum_create 1)"
    and un1: "unchanged ?L s s1"
    by blast
  have a1: "bnum_at s1 a as x"
    using assms un1 by (rule bnum_at_unchanged)
  have la: "a \<le> ?L" and las: "\<forall>q \<in> set as. q \<le> ?L"
    using bnum_at_below_brk [OF assms] by simp_all
  from c_pow_loop_spec [OF s1(2,3) a1 la las s1(6,4,5), of 0 n]
  obtain r rs s' where s': "c_pow_loop 0 n a res s1 = Some (r, s')" "heap_ok s'"
    "brk s1 \<le> brk s'" "?L < r" "\<forall>q \<in> set rs. ?L < q"
    "bnum_at s' r rs (pow_loop 0 n x (Bnum_create 1))"
    and un': "unchanged ?L s1 s'"
    by blast
  have "c_Bnum_pow a n s = Some (r, s')"
    using s1(1) s'(1) by (simp add: c_Bnum_pow_def)
  moreover have "unchanged ?L s s'"
    using un1 un' by (rule unchanged_trans)
  moreover have "?L \<le> brk s'"
    using s1(3) s'(3) by simp
  ultimately show ?thesis
    using s'(2,4,5,6) by (auto simp add: Bnum_pow_def)
qed

section \<open>Operands and results\<close>

lemma kept_and_fresh:
  assumes "heap_ok s" and "unchanged (brk s) s s'" and "brk s < r" and "\<forall>q \<in> set rs. brk s < q"
    and "bnum_at s' r rs z"
  shows "store_kept s s' \<and> fresh_at s s' r rs z"
proof -
  have low: "q \<le> brk s" if "q \<in> fmdom' (Blocks s) \<or> q \<in> fmdom' (Bnums s)" for q
    using assms(1) that by (auto simp add: heap_ok_def)
  have "store_kept s s'"
    using assms(2) low by (simp add: store_kept_def unchanged_def)
  moreover have "r \<notin> fmdom' (Bnums s)"
    using low [of r] assms(3) by auto
  moreover have "set rs \<inter> fmdom' (Blocks s) = {}"
    using low assms(4) by fastforce
  ultimately show ?thesis
    using assms(5) by (simp add: fresh_at_def)
qed

lemma fresh_apart:
  assumes "heap_ok s" and "bnum_at s a as x" and "brk s < r" and "\<forall>q \<in> set rs. brk s < q"
  shows "r \<noteq> a \<and> set rs \<inter> set as = {}"
  using bnum_at_below_brk [OF assms(1,2)] assms(3,4) by fastforce

lemma store_eqI:
  fixes s s' :: store
  assumes "brk s = brk s'"
    and "\<And>q. fmlookup (Blocks s) q = fmlookup (Blocks s') q"
    and "\<And>q. fmlookup (Bnums s) q = fmlookup (Bnums s') q"
  shows "s = s'"
proof -
  have "Blocks s = Blocks s'" and "Bnums s = Bnums s'"
    using assms(2,3) by (auto intro: fmap_ext)
  with assms(1) show ?thesis
    by simp
qed

lemmas store_run_simps =
  c_Bnum_create_def malloc_Bnum_def store_Bnum_def empty_store_def
  c_create_loop.simps c_add_block_def malloc_Block_def store_Block_def load_Bnum_def
  load_Block_def low_block_ucast BLOCK_SIZE_def

lemma two_numbers_run:
  "\<exists>s1. c_Bnum_create 7 empty_store = Some (1, s1) \<and>
     c_Bnum_create 4294967296 s1 = Some (3, two_numbers)"
proof -
  obtain s1 where s1: "c_Bnum_create 7 empty_store = Some (1, s1)"
    by (simp add: store_run_simps)
  then have "\<exists>s2. c_Bnum_create 4294967296 s1 = Some (3, s2) \<and> brk s2 = 5 \<and>
      (\<forall>q. fmlookup (Blocks s2) q = fmlookup (Blocks two_numbers) q) \<and>
      (\<forall>q. fmlookup (Bnums s2) q = fmlookup (Bnums two_numbers) q)"
    by (auto simp add: store_run_simps two_numbers_def)
  then obtain s2 where s2: "c_Bnum_create 4294967296 s1 = Some (3, s2)" "brk s2 = 5"
    "\<And>q. fmlookup (Blocks s2) q = fmlookup (Blocks two_numbers) q"
    "\<And>q. fmlookup (Bnums s2) q = fmlookup (Bnums two_numbers) q"
    by blast
  have "s2 = two_numbers"
    using s2(2,3,4) by (intro store_eqI) (simp_all add: two_numbers_def)
  with s1 s2(1) show ?thesis
    by simp
qed

text \<open>
  Claim C9. No comparison and no arithmetic operation changes an operand, and a result is
  freshly allocated. In a store \<open>s\<close> that holds the big numbers \<open>x\<close> at \<open>a\<close> and \<open>y\<close> at
  \<open>b\<close> (the same number or two numbers), each of the six comparisons returns its answer
  and leaves the very store \<open>s\<close>. \<open>Bnum_sum\<close>, \<open>Bnum_mult\<close> and \<open>Bnum_pow\<close> return a store
  \<open>s'\<close> in which every struct allocated in \<open>s\<close> holds what it held, so \<open>a\<close> and \<open>b\<close> are
  still \<open>x\<close> and \<open>y\<close> with the same blocks and counts; the result is at an address that was
  not allocated in \<open>s\<close>, as are all its blocks, so it shares no block with an operand.
\<close>

theorem operands_untouched:
  assumes "heap_ok s" and "bnum_at s a as x" and "bnum_at s b bs y"
  shows "c_Bnum_eq a b s = Some (Bnum_eq x y, s) \<and>
     c_Bnum_ne a b s = Some (Bnum_ne x y, s) \<and>
     c_Bnum_le a b s = Some (Bnum_le x y, s) \<and>
     c_Bnum_lt a b s = Some (Bnum_lt x y, s) \<and>
     c_Bnum_ge a b s = Some (Bnum_ge x y, s) \<and>
     c_Bnum_gt a b s = Some (Bnum_gt x y, s) \<and>
     (\<exists>r rs s'. c_Bnum_sum a b s = Some (r, s') \<and> store_kept s s' \<and>
        bnum_at s' a as x \<and> bnum_at s' b bs y \<and> fresh_at s s' r rs (Bnum_sum x y) \<and>
        r \<noteq> a \<and> r \<noteq> b \<and> set rs \<inter> (set as \<union> set bs) = {}) \<and>
     (\<exists>r rs s'. c_Bnum_mult a b s = Some (r, s') \<and> store_kept s s' \<and>
        bnum_at s' a as x \<and> bnum_at s' b bs y \<and> fresh_at s s' r rs (Bnum_mult x y) \<and>
        r \<noteq> a \<and> r \<noteq> b \<and> set rs \<inter> (set as \<union> set bs) = {}) \<and>
     (\<forall>n. \<exists>r rs s'. c_Bnum_pow a n s = Some (r, s') \<and> store_kept s s' \<and>
        bnum_at s' a as x \<and> fresh_at s s' r rs (Bnum_pow x n) \<and>
        r \<noteq> a \<and> set rs \<inter> set as = {})"
proof -
  note ok = assms(1) and ata = assms(2) and atb = assms(3)
  have sum_part: "\<exists>r rs s'. c_Bnum_sum a b s = Some (r, s') \<and> store_kept s s' \<and>
        bnum_at s' a as x \<and> bnum_at s' b bs y \<and> fresh_at s s' r rs (Bnum_sum x y) \<and>
        r \<noteq> a \<and> r \<noteq> b \<and> set rs \<inter> (set as \<union> set bs) = {}"
  proof -
    from c_Bnum_sum_spec [OF ok ata atb]
    obtain r rs s' where r: "c_Bnum_sum a b s = Some (r, s')" "brk s < r"
      "\<forall>q \<in> set rs. brk s < q" "bnum_at s' r rs (Bnum_sum x y)"
      and un: "unchanged (brk s) s s'"
      by blast
    have "set rs \<inter> (set as \<union> set bs) = {}"
      using fresh_apart [OF ok ata r(2,3)] fresh_apart [OF ok atb r(2,3)] by blast
    then show ?thesis
      using r(1) kept_and_fresh [OF ok un r(2,3,4)]
        bnum_at_unchanged [OF ok ata un] bnum_at_unchanged [OF ok atb un]
        fresh_apart [OF ok ata r(2,3)] fresh_apart [OF ok atb r(2,3)]
      by blast
  qed
  have mult_part: "\<exists>r rs s'. c_Bnum_mult a b s = Some (r, s') \<and> store_kept s s' \<and>
        bnum_at s' a as x \<and> bnum_at s' b bs y \<and> fresh_at s s' r rs (Bnum_mult x y) \<and>
        r \<noteq> a \<and> r \<noteq> b \<and> set rs \<inter> (set as \<union> set bs) = {}"
  proof -
    from c_Bnum_mult_spec [OF ok ata atb]
    obtain r rs s' where r: "c_Bnum_mult a b s = Some (r, s')" "brk s < r"
      "\<forall>q \<in> set rs. brk s < q" "bnum_at s' r rs (Bnum_mult x y)"
      and un: "unchanged (brk s) s s'"
      by blast
    have "set rs \<inter> (set as \<union> set bs) = {}"
      using fresh_apart [OF ok ata r(2,3)] fresh_apart [OF ok atb r(2,3)] by blast
    then show ?thesis
      using r(1) kept_and_fresh [OF ok un r(2,3,4)]
        bnum_at_unchanged [OF ok ata un] bnum_at_unchanged [OF ok atb un]
        fresh_apart [OF ok ata r(2,3)] fresh_apart [OF ok atb r(2,3)]
      by blast
  qed
  have pow_part: "\<exists>r rs s'. c_Bnum_pow a n s = Some (r, s') \<and> store_kept s s' \<and>
        bnum_at s' a as x \<and> fresh_at s s' r rs (Bnum_pow x n) \<and>
        r \<noteq> a \<and> set rs \<inter> set as = {}" for n
  proof -
    from c_Bnum_pow_spec [OF ok ata, of n]
    obtain r rs s' where r: "c_Bnum_pow a n s = Some (r, s')" "brk s < r"
      "\<forall>q \<in> set rs. brk s < q" "bnum_at s' r rs (Bnum_pow x n)"
      and un: "unchanged (brk s) s s'"
      by blast
    show ?thesis
      using r(1) kept_and_fresh [OF ok un r(2,3,4)] bnum_at_unchanged [OF ok ata un]
        fresh_apart [OF ok ata r(2,3)]
      by blast
  qed
  show ?thesis
    using c_Bnum_eq_spec [OF ata atb] c_Bnum_ne_spec [OF ata atb] c_Bnum_le_spec [OF ata atb]
      c_Bnum_lt_spec [OF ata atb] c_Bnum_ge_spec [OF ata atb] c_Bnum_gt_spec [OF ata atb]
      sum_part mult_part pow_part
    by simp
qed

theorem operands_untouched_witness:
  "heap_ok two_numbers \<and>
   bnum_at two_numbers 1 [2] (Bnum_create 7) \<and>
   bnum_at two_numbers 3 [4, 5] (Bnum_create 4294967296) \<and>
   c_Bnum_eq 1 3 two_numbers = Some (False, two_numbers) \<and>
   c_Bnum_lt 1 3 two_numbers = Some (True, two_numbers) \<and>
   (\<exists>r rs s'. c_Bnum_sum 1 3 two_numbers = Some (r, s') \<and> store_kept two_numbers s' \<and>
      bnum_at s' 1 [2] (Bnum_create 7) \<and> bnum_at s' 3 [4, 5] (Bnum_create 4294967296) \<and>
      fresh_at two_numbers s' r rs (Bnum_sum (Bnum_create 7) (Bnum_create 4294967296)) \<and>
      r \<noteq> 1 \<and> r \<noteq> 3 \<and> set rs \<inter> (set [2] \<union> set [4, 5]) = {}) \<and>
   (\<exists>r rs s'. c_Bnum_mult 1 3 two_numbers = Some (r, s') \<and> store_kept two_numbers s' \<and>
      bnum_at s' 1 [2] (Bnum_create 7) \<and> bnum_at s' 3 [4, 5] (Bnum_create 4294967296) \<and>
      fresh_at two_numbers s' r rs (Bnum_mult (Bnum_create 7) (Bnum_create 4294967296)) \<and>
      r \<noteq> 1 \<and> r \<noteq> 3 \<and> set rs \<inter> (set [2] \<union> set [4, 5]) = {}) \<and>
   (\<exists>r rs s'. c_Bnum_pow 1 3 two_numbers = Some (r, s') \<and> store_kept two_numbers s' \<and>
      bnum_at s' 1 [2] (Bnum_create 7) \<and>
      fresh_at two_numbers s' r rs (Bnum_pow (Bnum_create 7) 3) \<and>
      r \<noteq> 1 \<and> set rs \<inter> set [2] = {})"
proof -
  have x: "Bnum_create 7 = \<lparr>num_blocks = 1, blocks = [7]\<rparr>"
    and y: "Bnum_create 4294967296 = \<lparr>num_blocks = 2, blocks = [0, 1]\<rparr>"
    by (simp_all add: run_simps)
  have ok: "heap_ok two_numbers"
    by (simp add: heap_ok_def two_numbers_def)
  have ata: "bnum_at two_numbers 1 [2] (Bnum_create 7)"
    by (simp add: x bnum_at_def two_numbers_def)
  have atb: "bnum_at two_numbers 3 [4, 5] (Bnum_create 4294967296)"
    by (simp add: y bnum_at_def two_numbers_def)
  have ne: "Bnum_eq (Bnum_create 7) (Bnum_create 4294967296) = False"
    and lt: "Bnum_lt (Bnum_create 7) (Bnum_create 4294967296) = True"
    by (simp_all add: x y Bnum_eq_def Bnum_lt_def Bnum_ge_def)
  note all = operands_untouched [OF ok ata atb, unfolded ne lt]
  from all have "c_Bnum_eq 1 3 two_numbers = Some (False, two_numbers)"
    and "c_Bnum_lt 1 3 two_numbers = Some (True, two_numbers)"
    by blast+
  moreover from all have "\<exists>r rs s'. c_Bnum_sum 1 3 two_numbers = Some (r, s') \<and>
      store_kept two_numbers s' \<and>
      bnum_at s' 1 [2] (Bnum_create 7) \<and> bnum_at s' 3 [4, 5] (Bnum_create 4294967296) \<and>
      fresh_at two_numbers s' r rs (Bnum_sum (Bnum_create 7) (Bnum_create 4294967296)) \<and>
      r \<noteq> 1 \<and> r \<noteq> 3 \<and> set rs \<inter> (set [2] \<union> set [4, 5]) = {}"
    by blast
  moreover from all have "\<exists>r rs s'. c_Bnum_mult 1 3 two_numbers = Some (r, s') \<and>
      store_kept two_numbers s' \<and>
      bnum_at s' 1 [2] (Bnum_create 7) \<and> bnum_at s' 3 [4, 5] (Bnum_create 4294967296) \<and>
      fresh_at two_numbers s' r rs (Bnum_mult (Bnum_create 7) (Bnum_create 4294967296)) \<and>
      r \<noteq> 1 \<and> r \<noteq> 3 \<and> set rs \<inter> (set [2] \<union> set [4, 5]) = {}"
    by blast
  moreover from all have "\<exists>r rs s'. c_Bnum_pow 1 3 two_numbers = Some (r, s') \<and>
      store_kept two_numbers s' \<and>
      bnum_at s' 1 [2] (Bnum_create 7) \<and>
      fresh_at two_numbers s' r rs (Bnum_pow (Bnum_create 7) 3) \<and>
      r \<noteq> 1 \<and> set rs \<inter> set [2] = {}"
    by blast
  ultimately show ?thesis
    using ok ata atb by blast
qed

end
